theory Spec2Isabelle
  imports Complex_Main "HOL-Library.Signed_Division" "HOL-Library.Log_Nat"
begin

section \<open>Numbers of the source\<close>

text \<open>
  The TypeScript source computes with \<open>number\<close>, the binary64 doubles.  Counters,
  lengths and indices are naturals here; pitches, parameters and times are rationals.
  The three modifications that compute new pitches (transpose, invert, mutate) round
  every arithmetic result to the nearest double, as the source does: see
  \<open>roundDouble\<close> below.  The quantizer, the index computations and the times of the
  scheduler are computed exactly; on integers below \<open>2 ^ 53\<close> the doubles of the source
  are exact as well.
\<close>

definition Math_floor :: "rat \<Rightarrow> int" where
  "Math_floor x = \<lfloor>x\<rfloor>"

text \<open>\<open>Math.round\<close> rounds to the nearest integer, halves towards plus infinity.\<close>

definition Math_round :: "rat \<Rightarrow> int" where
  "Math_round x = \<lfloor>x + 1 / 2\<rfloor>"

text \<open>
  The remainder operator \<open>%\<close> truncates the quotient towards zero, so its result has the
  sign of the dividend.  On integers this is \<open>smod\<close>.
\<close>

definition js_trunc :: "rat \<Rightarrow> int" where
  "js_trunc x = (if 0 \<le> x then \<lfloor>x\<rfloor> else \<lceil>x\<rceil>)"

definition js_rem :: "rat \<Rightarrow> rat \<Rightarrow> rat" where
  "js_rem x m = x - m * of_int (js_trunc (x / m))"

section \<open>Arithmetic on doubles\<close>

text \<open>
  A double other than zero is \<open>m * 2 ^ (e - 52)\<close> with an integer \<open>m\<close> of 53 bits, where
  \<open>2 ^ e\<close> is the largest power of two not above its absolute value.  The result of
  \<open>+\<close>, \<open>-\<close> and \<open>*\<close> on doubles is the exact result rounded to the nearest double,
  to the one with even \<open>m\<close> when two are equally near.  \<open>expo x\<close> is the exponent
  \<open>e\<close> of a rational \<open>x\<close>, and \<open>roundDouble x\<close> the double nearest to \<open>x\<close>.  Overflow
  to \<open>Infinity\<close> (from \<open>2 ^ 1024\<close>) and the subnormal doubles (below \<open>2 ^ - 1022\<close>)
  are not represented: no pitch comes near either.
\<close>

text \<open>The nearest integer, the even one of two that are equally near.\<close>

definition roundHalfEven :: "rat \<Rightarrow> int" where
  "roundHalfEven x =
     (let f = \<lfloor>x\<rfloor>; d = x - of_int f
      in if d < 1 / 2 then f else if d > 1 / 2 then f + 1 else if even f then f else f + 1)"

text \<open>
  \<open>bitlen n\<close> is the number of binary digits of a positive integer \<open>n\<close>.  From 1 on
  the exponent is read off the integer part; below 1 it is read off the reciprocal:
  \<open>2 ^ - k \<le> x < 2 ^ (1 - k)\<close> holds exactly when \<open>\<lceil>1 / x\<rceil> - 1\<close> has \<open>k\<close> digits
  (\<open>expo_eqI\<close> below).
\<close>

definition expo :: "rat \<Rightarrow> int" where
  "expo x = (if 1 \<le> \<bar>x\<bar> then bitlen \<lfloor>\<bar>x\<bar>\<rfloor> - 1 else - bitlen (\<lceil>1 / \<bar>x\<bar>\<rceil> - 1))"

definition roundDouble :: "rat \<Rightarrow> rat" where
  "roundDouble x = (let ulp = 2 powi (expo x - 52) in of_int (roundHalfEven (x / ulp)) * ulp)"

definition fadd :: "rat \<Rightarrow> rat \<Rightarrow> rat" where
  "fadd a b = roundDouble (a + b)"

definition fsub :: "rat \<Rightarrow> rat \<Rightarrow> rat" where
  "fsub a b = roundDouble (a - b)"

definition fmul :: "rat \<Rightarrow> rat \<Rightarrow> rat" where
  "fmul a b = roundDouble (a * b)"

section \<open>Scale quantization (FractalTree.ts)\<close>

datatype ScaleName =
  Chromatic | Major | Minor | MajorPentatonic | MinorPentatonic
  | HarmonicMinor | WholeTone | Unquantized

fun SCALES :: "ScaleName \<Rightarrow> int list" where
  "SCALES Chromatic = [0, 1, 2, 3, 4, 5, 6, 7, 8, 9, 10, 11]"
| "SCALES Major = [0, 2, 4, 5, 7, 9, 11]"
| "SCALES Minor = [0, 2, 3, 5, 7, 8, 10]"
| "SCALES MajorPentatonic = [0, 2, 4, 7, 9]"
| "SCALES MinorPentatonic = [0, 3, 5, 7, 10]"
| "SCALES HarmonicMinor = [0, 2, 3, 5, 7, 8, 11]"
| "SCALES WholeTone = [0, 2, 4, 6, 8, 10]"
| "SCALES Unquantized = []"

text \<open>
  The loop \<open>for (const interval of intervals)\<close> of \<open>quantizePitch\<close>.  Its state is
  \<open>(minDiff, nearest)\<close>; \<open>minDiff\<close> starts at \<open>Infinity\<close>, written \<open>None\<close>.
\<close>

definition below :: "int \<Rightarrow> int option \<Rightarrow> bool" where
  "below d m = (case m of None \<Rightarrow> True | Some b \<Rightarrow> d < b)"

fun nearest_loop :: "int \<Rightarrow> int list \<Rightarrow> int option \<times> int \<Rightarrow> int option \<times> int" where
  "nearest_loop normalizedNote [] st = st"
| "nearest_loop normalizedNote (interval # rest) (minDiff, nearest) =
     (let diff = \<bar>normalizedNote - interval\<bar> in
        if below diff minDiff
        then nearest_loop normalizedNote rest (Some diff, interval)
        else nearest_loop normalizedNote rest (minDiff, nearest))"

text \<open>
  Lines 37 to 60 of \<open>quantizePitch\<close>: the search for the nearest interval and the two
  wrap-around corrections, for a non-empty interval table.
\<close>

definition snap :: "int list \<Rightarrow> int \<Rightarrow> int \<Rightarrow> int" where
  "snap intervals octave normalizedNote =
     (let (minDiff, nearest) = nearest_loop normalizedNote intervals (None, hd intervals);
          diffUpper = \<bar>(normalizedNote - 12) - hd intervals\<bar>
      in if below diffUpper minDiff then (octave + 1) * 12 + hd intervals
         else
           let diffLower = \<bar>(normalizedNote + 12) - last intervals\<bar>
           in if below diffLower minDiff then (octave - 1) * 12 + last intervals
              else octave * 12 + nearest)"

definition quantizePitch :: "rat \<Rightarrow> ScaleName \<Rightarrow> rat" where
  "quantizePitch pitchSemitones scale =
     (if scale = Unquantized then pitchSemitones
      else
        let intervals = SCALES scale in
        if intervals = [] then pitchSemitones
        else
          let octave = Math_floor (pitchSemitones / 12);
              note = Math_round (js_rem pitchSemitones 12);
              normalizedNote = ((note smod 12) + 12) smod 12
          in of_int (snap intervals octave normalizedNote))"


section \<open>Random numbers\<close>

text \<open>
  \<open>Math.random()\<close> returns a double in the half-open interval from 0 to 1; engines
  produce multiples of \<open>2 ^ - 53\<close>.  The source of randomness is an arbitrary stream of
  naturals; the \<open>k\<close>-th call of \<open>Math.random()\<close> reads entry \<open>k\<close> and reduces it to that
  grid.  Functions that draw random numbers take the number of calls made so far and
  return the new count.
\<close>

type_synonym random_source = "nat \<Rightarrow> nat"

definition Math_random :: "random_source \<Rightarrow> nat \<Rightarrow> rat" where
  "Math_random src k = of_nat (src k mod 2 ^ 53) / 2 ^ 53"

section \<open>Data model (types.ts)\<close>

datatype GateLengthKind = Trigger | P10 | P25 | P50 | P75 | P90 | Tied

text \<open>
  The optional fields \<open>depth\<close> and \<open>originalIndex\<close> of a step are options; \<open>depth\<close> is
  called \<open>stepDepth\<close> here, since a tree node has a field \<open>depth\<close> too.
\<close>

record Step =
  pitch :: rat
  gateOn :: bool
  ratchets :: nat
  slew :: rat
  gateLength :: GateLengthKind
  stepDepth :: "nat option"
  originalIndex :: "nat option"

datatype PlaybackOrder = Forward | Backward | Pendulum | Random

text \<open>The field \<open>length\<close> of a sequence is called \<open>seqLength\<close> here.\<close>

record Sequence =
  steps :: "Step list"
  seqLength :: nat
  scale :: ScaleName
  playbackOrder :: PlaybackOrder

datatype ModificationKind = Transpose | Invert | Reverse | Mutate

datatype BranchPlaybackOrder = BranchForward | BranchReverse | BranchPendulum | BranchRandom

text \<open>The fields \<open>left\<close> and \<open>right\<close> of a branch configuration are \<open>leftKind\<close>, \<open>rightKind\<close>.\<close>

record BranchConfig =
  leftKind :: ModificationKind
  rightKind :: ModificationKind
  leftParam :: rat
  rightParam :: rat

record Pattern =
  trunk :: Sequence
  branchesCount :: nat
  pathValue :: rat
  mutationAmount :: rat
  rootOffsetSemitones :: rat
  divMult :: rat
  branchConfig :: "BranchConfig list"
  branchPlaybackOrder :: BranchPlaybackOrder

datatype TreeNode =
  TreeNode (sequence: Sequence) (depth: nat)
    (modificationFromParent: "ModificationKind option")
    (left: "TreeNode option") (right: "TreeNode option")

record GeneratedTree =
  root :: TreeNode
  maxDepth :: nat

text \<open>The field \<open>id\<close> of a channel is called \<open>channelId\<close>.\<close>

record Channel =
  channelId :: nat
  currentPatternIndex :: nat
  patterns :: "Pattern list"
  generatedTree :: "GeneratedTree option"
  activeSequence :: "Sequence option"

text \<open>
  Outcomes of the source that are not values of these types.  \<open>TypeError\<close> is the
  exception of JavaScript for a property read on \<open>undefined\<close> (a pattern index without a
  pattern).  \<open>HolesInSteps\<close> marks the one place where the source writes \<open>undefined\<close>
  into a step array, and \<open>NonFiniteTime\<close> a division by zero, whose result is
  \<open>Infinity\<close> or \<open>NaN\<close>: the source goes on with such values, the model stops there.
\<close>

datatype error = TypeError | HolesInSteps | NonFiniteTime

section \<open>Modifications (FractalTree.ts)\<close>

definition cloneSequence :: "Sequence \<Rightarrow> Sequence" where
  "cloneSequence seq = seq\<lparr>steps := map (\<lambda>s. s) (steps seq)\<rparr>"

definition transposeSequence :: "Sequence \<Rightarrow> rat \<Rightarrow> Sequence" where
  "transposeSequence seq semitones =
     (let newSeq = cloneSequence seq
      in newSeq\<lparr>steps := map (\<lambda>step. step\<lparr>pitch := fadd (pitch step) semitones\<rparr>) (steps newSeq)\<rparr>)"

text \<open>
  The first \<open>forEach\<close> of \<open>invertSequence\<close>, over all stored steps.  \<open>minPitch\<close> starts
  at \<open>Infinity\<close> and \<open>maxPitch\<close> at \<open>-Infinity\<close>, both written \<open>None\<close>.  After the
  loop over a non-empty array both are numbers, so the last case of \<open>invertSequence\<close>
  below is never taken.
\<close>

fun minmax_loop :: "Step list \<Rightarrow> rat option \<times> rat option \<Rightarrow> rat option \<times> rat option" where
  "minmax_loop [] st = st"
| "minmax_loop (s # rest) (minPitch, maxPitch) =
     minmax_loop rest
       (if (case minPitch of None \<Rightarrow> True | Some m \<Rightarrow> pitch s < m) then Some (pitch s) else minPitch,
        if (case maxPitch of None \<Rightarrow> True | Some m \<Rightarrow> pitch s > m) then Some (pitch s) else maxPitch)"

definition invertSequence :: "Sequence \<Rightarrow> Sequence" where
  "invertSequence seq =
     (let newSeq = cloneSequence seq
      in if length (steps newSeq) = 0 then newSeq
         else
           case minmax_loop (steps newSeq) (None, None) of
             (Some minPitch, Some maxPitch) \<Rightarrow>
               newSeq\<lparr>steps := map (\<lambda>s. s\<lparr>pitch := fsub maxPitch (fsub (pitch s) minPitch)\<rparr>)
                                 (steps newSeq)\<rparr>
           | _ \<Rightarrow> newSeq)"

text \<open>
  \<open>reverseSequence\<close> copies the reversed active prefix back, index by index.  When
  \<open>length\<close> exceeds the number of stored steps, the copy loop of the source stores
  \<open>undefined\<close> at the missing positions.
\<close>

definition reverseSequence :: "Sequence \<Rightarrow> error + Sequence" where
  "reverseSequence seq =
     (let newSeq = cloneSequence seq;
          activeSteps = rev (take (seqLength newSeq) (steps newSeq))
      in if seqLength newSeq \<le> length activeSteps
         then Inr (newSeq\<lparr>steps := fold (\<lambda>i st. st[i := activeSteps ! i]) [0..<seqLength newSeq] (steps newSeq)\<rparr>)
         else Inl HolesInSteps)"

fun mutate_loop :: "random_source \<Rightarrow> rat \<Rightarrow> Step list \<Rightarrow> nat \<Rightarrow> Step list \<times> nat" where
  "mutate_loop src range' [] k = ([], k)"
| "mutate_loop src range' (step # rest) k =
     (if gateOn step
      then
        let offset = fsub (of_int (Math_floor (fmul (Math_random src k) (fadd (fmul range' 2) 1))))
                       range';
            (rest', k') = mutate_loop src range' rest (Suc k)
        in (step\<lparr>pitch := fadd (pitch step) offset\<rparr> # rest', k')
      else
        let (rest', k') = mutate_loop src range' rest k
        in (step # rest', k'))"

definition mutateSequence :: "random_source \<Rightarrow> Sequence \<Rightarrow> rat \<Rightarrow> nat \<Rightarrow> Sequence \<times> nat" where
  "mutateSequence src seq range' k =
     (let newSeq = cloneSequence seq
      in if range' = 0 then (newSeq, k)
         else
           let (steps', k') = mutate_loop src range' (steps newSeq) k
           in (newSeq\<lparr>steps := steps'\<rparr>, k'))"


section \<open>Tree generation (FractalTree.ts)\<close>

definition defaultConfig :: BranchConfig where
  "defaultConfig = \<lparr>leftKind = Transpose, rightKind = Transpose, leftParam = 7, rightParam = - 5\<rparr>"

text \<open>
  \<open>param || 0.3\<close>: the number 0 is falsy.  The literal \<open>0.3\<close> is the double nearest to
  three tenths.
\<close>

definition or_default :: "rat \<Rightarrow> rat \<Rightarrow> rat" where
  "or_default param dflt = (if param = 0 then dflt else param)"

text \<open>
  The chain of \<open>if\<close>s that applies one modification kind to the sequence of a node;
  \<open>buildChildren\<close> has it once for the left and once for the right child.
\<close>

definition applyModification ::
    "random_source \<Rightarrow> ModificationKind \<Rightarrow> rat \<Rightarrow> Sequence \<Rightarrow> nat \<Rightarrow> error + Sequence \<times> nat" where
  "applyModification src kind param seq k =
     (if kind = Transpose then Inr (transposeSequence seq param, k)
      else if kind = Invert then Inr (invertSequence seq, k)
      else if kind = Reverse then
        (case reverseSequence seq of Inl e \<Rightarrow> Inl e | Inr seq' \<Rightarrow> Inr (seq', k))
      else Inr (mutateSequence src seq (or_default param (roundDouble (3 / 10))) k))"

text \<open>
  The recursive builder.  The source attaches the children to the node in place; the
  model returns the node with its children.  The random draws are made in the order of
  the source: left sequence, right sequence, left subtree, right subtree.
\<close>

function buildChildren ::
    "random_source \<Rightarrow> Pattern \<Rightarrow> nat \<Rightarrow> TreeNode \<Rightarrow> nat \<Rightarrow> error + TreeNode \<times> nat" where
  "buildChildren src pattern maxDepth' node k =
     (if depth node \<ge> maxDepth' then Inr (node, k)
      else
        let d = depth node + 1;
            configIndex = d - 1;
            config = (if configIndex < length (branchConfig pattern)
                      then branchConfig pattern ! configIndex else defaultConfig);
            leftMod = leftKind config;
            rightMod = rightKind config
        in case applyModification src leftMod (leftParam config) (sequence node) k of
             Inl e \<Rightarrow> Inl e
           | Inr (leftSeq, k1) \<Rightarrow>
               (case applyModification src rightMod (rightParam config) (sequence node) k1 of
                  Inl e \<Rightarrow> Inl e
                | Inr (rightSeq, k2) \<Rightarrow>
                    (case buildChildren src pattern maxDepth'
                            (TreeNode leftSeq d (Some leftMod) None None) k2 of
                       Inl e \<Rightarrow> Inl e
                     | Inr (leftNode, k3) \<Rightarrow>
                         (case buildChildren src pattern maxDepth'
                                 (TreeNode rightSeq d (Some rightMod) None None) k3 of
                            Inl e \<Rightarrow> Inl e
                          | Inr (rightNode, k4) \<Rightarrow>
                              Inr (TreeNode (sequence node) (depth node) (modificationFromParent node)
                                     (Some leftNode) (Some rightNode), k4)))))"
  by pat_completeness auto
termination
  by (relation "measure (\<lambda>(src, pattern, maxDepth', node, k). maxDepth' - depth node)") auto

declare buildChildren.simps [simp del]

text \<open>The branch configuration that \<open>buildChildren\<close> uses for a node at depth \<open>i\<close>.\<close>

definition configAt :: "Pattern \<Rightarrow> nat \<Rightarrow> BranchConfig" where
  "configAt pattern i =
     (if i < length (branchConfig pattern) then branchConfig pattern ! i else defaultConfig)"

definition generateTreeForChannel ::
    "random_source \<Rightarrow> Channel \<Rightarrow> nat \<Rightarrow> error + GeneratedTree \<times> nat" where
  "generateTreeForChannel src channel k =
     (if currentPatternIndex channel < length (patterns channel)
      then
        let pattern = patterns channel ! currentPatternIndex channel;
            trunk' = trunk pattern;
            maxDepth' = branchesCount pattern;
            root' = TreeNode trunk' 0 None None None
        in if maxDepth' = 0 then Inr (\<lparr>root = root', maxDepth = maxDepth'\<rparr>, k)
           else
             case buildChildren src pattern maxDepth' root' k of
               Inl e \<Rightarrow> Inl e
             | Inr (root'', k') \<Rightarrow> Inr (\<lparr>root = root'', maxDepth = maxDepth'\<rparr>, k')
      else Inl TypeError)"

section \<open>Playback sequence construction (FractalTree.ts)\<close>

definition getEffectivePathValue :: "Pattern \<Rightarrow> rat" where
  "getEffectivePathValue pattern = pathValue pattern"

text \<open>\<open>Number.prototype.toString(2)\<close> on an integer, and \<open>String.prototype.padStart\<close>.\<close>

function toBinary :: "nat \<Rightarrow> string" where
  "toBinary n =
     (if n < 2 then [if n = 0 then CHR ''0'' else CHR ''1'']
      else toBinary (n div 2) @ [if n mod 2 = 0 then CHR ''0'' else CHR ''1''])"
  by pat_completeness auto
termination
  by (relation "measure (\<lambda>n. n)") auto

declare toBinary.simps [simp del]

definition toString2 :: "int \<Rightarrow> string" where
  "toString2 i = (if i < 0 then CHR ''-'' # toBinary (nat (- i)) else toBinary (nat i))"

definition padStart :: "string \<Rightarrow> nat \<Rightarrow> char \<Rightarrow> string" where
  "padStart str targetLength c = replicate (targetLength - length str) c @ str"

text \<open>
  The loop that follows the path bits from the root.  \<open>i\<close> is the loop index and the
  second number the iterations left; \<open>pathBits[i]\<close> is \<open>undefined\<close> past the end of the
  string, which is not equal to \<open>'0'\<close>.
\<close>

fun walk :: "string \<Rightarrow> nat \<Rightarrow> nat \<Rightarrow> TreeNode option \<Rightarrow> TreeNode list \<Rightarrow> TreeNode list" where
  "walk pathBits i 0 currentNode pathNodes = pathNodes"
| "walk pathBits i (Suc n) None pathNodes = pathNodes"
| "walk pathBits i (Suc n) (Some node) pathNodes =
     (let next = (if i < length pathBits \<and> pathBits ! i = CHR ''0'' then left node else right node)
      in walk pathBits (Suc i) n next
           (case next of None \<Rightarrow> pathNodes | Some child \<Rightarrow> pathNodes @ [child]))"

text \<open>
  \<open>for (let i = xs.length - 2; i > 0; i--) out.push(xs[i])\<close>: the tail that the
  pendulum orders append, started at index \<open>xs.length - 2\<close>.
\<close>

fun pendulum_tail :: "'a list \<Rightarrow> nat \<Rightarrow> 'a list" where
  "pendulum_tail xs 0 = []"
| "pendulum_tail xs (Suc i) = xs ! Suc i # pendulum_tail xs i"

text \<open>
  \<open>for (let i = xs.length - 1; i > 0; i--) { j = Math.floor(Math.random() * (i + 1));
  swap xs[i], xs[j] }\<close>, started at index \<open>xs.length - 1\<close>.
\<close>

fun shuffle_loop :: "random_source \<Rightarrow> nat \<Rightarrow> 'a list \<Rightarrow> nat \<Rightarrow> 'a list \<times> nat" where
  "shuffle_loop src 0 xs k = (xs, k)"
| "shuffle_loop src (Suc i) xs k =
     (let j = nat (Math_floor (Math_random src k * (of_nat (Suc i) + 1)))
      in shuffle_loop src i (xs[Suc i := xs ! j, j := xs ! Suc i]) (Suc k))"

text \<open>The body of \<open>orderedNodes.forEach\<close>: the steps that one node contributes.\<close>

definition nodeSteps :: "random_source \<Rightarrow> PlaybackOrder \<Rightarrow> TreeNode \<Rightarrow> nat \<Rightarrow> Step list \<times> nat" where
  "nodeSteps src seqOrder node k =
     (let steps0 = map (\<lambda>(idx, s). s\<lparr>originalIndex := Some idx\<rparr>)
                     (enumerate 0 (take (seqLength (sequence node)) (steps (sequence node))));
          (steps1, k') =
             (if seqOrder = Backward then (rev steps0, k)
              else if seqOrder = Pendulum then (steps0 @ pendulum_tail steps0 (length steps0 - 2), k)
              else if seqOrder = Random then shuffle_loop src (length steps0 - 1) steps0 k
              else (steps0, k))
      in (map (\<lambda>s. s\<lparr>stepDepth := Some (depth node)\<rparr>) steps1, k'))"

fun collectSteps :: "random_source \<Rightarrow> PlaybackOrder \<Rightarrow> TreeNode list \<Rightarrow> nat \<Rightarrow> Step list \<times> nat" where
  "collectSteps src seqOrder [] k = ([], k)"
| "collectSteps src seqOrder (node # rest) k =
     (let (taggedSteps, k1) = nodeSteps src seqOrder node k;
          (collected, k2) = collectSteps src seqOrder rest k1
      in (taggedSteps @ collected, k2))"

text \<open>
  \<open>buildPlaybackSequence\<close> in its three parts: the nodes on the selected path, their
  reordering by \<open>branchPlaybackOrder\<close>, and the collection of their steps.
\<close>

definition selectPath :: "Pattern \<Rightarrow> GeneratedTree \<Rightarrow> TreeNode list" where
  "selectPath pattern tree =
     (let branchesCount' = branchesCount pattern;
          maxPaths = (2::rat) ^ branchesCount';
          effectivePathValue = getEffectivePathValue pattern;
          pathIndex = Math_floor (effectivePathValue * (maxPaths - 1 / 10000));
          pathBits = padStart (toString2 pathIndex) branchesCount' CHR ''0''
      in walk pathBits 0 branchesCount' (Some (root tree)) [root tree])"

definition orderNodes ::
    "random_source \<Rightarrow> BranchPlaybackOrder \<Rightarrow> TreeNode list \<Rightarrow> nat \<Rightarrow> TreeNode list \<times> nat" where
  "orderNodes src branchOrder pathNodes k =
     (if branchOrder = BranchForward then (pathNodes, k)
      else if branchOrder = BranchReverse then (rev pathNodes, k)
      else if branchOrder = BranchPendulum
        then (pathNodes @ pendulum_tail pathNodes (length pathNodes - 2), k)
      else shuffle_loop src (length pathNodes - 1) pathNodes k)"

definition buildPlaybackSequence :: "random_source \<Rightarrow> Channel \<Rightarrow> nat \<Rightarrow> error + Sequence \<times> nat" where
  "buildPlaybackSequence src channel k =
     (if currentPatternIndex channel < length (patterns channel)
      then
        let pattern = patterns channel ! currentPatternIndex channel
        in case generatedTree channel of
             None \<Rightarrow> Inr (trunk pattern, k)
           | Some tree \<Rightarrow>
               let pathNodes = selectPath pattern tree;
                   (orderedNodes, k1) = orderNodes src (branchPlaybackOrder pattern) pathNodes k;
                   seqOrder = playbackOrder (trunk pattern);
                   (collectedSteps, k2) = collectSteps src seqOrder orderedNodes k1
               in Inr (\<lparr>steps = collectedSteps, seqLength = length collectedSteps,
                        scale = scale (trunk pattern), playbackOrder = Forward\<rparr>, k2)
      else Inl TypeError)"

definition applyMutationToTrunk :: "random_source \<Rightarrow> Pattern \<Rightarrow> nat \<Rightarrow> Pattern \<times> nat" where
  "applyMutationToTrunk src pattern k =
     (let (trunk', k') = mutateSequence src (trunk pattern) (mutationAmount pattern) k
      in (pattern\<lparr>trunk := trunk'\<rparr>, k'))"


section \<open>Step scheduler (SequencerEngine.ts)\<close>

record ChannelState =
  currentBaseStep :: nat
  currentRatchetCount :: nat
  nextNoteTime :: rat
  lastTriggeredStepIndex :: int

datatype OutputMode = Audio | Midi

text \<open>
  What \<open>processChannel\<close> reads from the engine: two fields of the engine state, whether
  a MIDI output is selected, and the length of a quarter note in seconds, which the
  source asks of the transport (\<open>Tone.Transport.toSeconds("4n")\<close>).
\<close>

record Engine =
  ratchetsEnabled :: bool
  outputMode :: OutputMode
  midiOutputSelected :: bool
  quarterTime :: rat

text \<open>
  The two sinks.  \<open>SynthNote p d t\<close> is \<open>synth.triggerAttackRelease\<close> with the frequency
  of MIDI pitch \<open>p\<close>, duration \<open>d\<close> in seconds and schedule time \<open>t\<close>; \<open>MidiNote p d t\<close>
  is \<open>triggerMIDINote\<close> with the duration in milliseconds.
\<close>

datatype NoteEvent = SynthNote rat rat rat | MidiNote rat rat rat

definition getStepIndexAtTick :: "random_source \<Rightarrow> Sequence \<Rightarrow> nat \<Rightarrow> nat \<Rightarrow> nat \<times> nat" where
  "getStepIndexAtTick src seq baseStepIndex k =
     (let len = seqLength seq
      in if len = 0 then (0, k)
         else
           case playbackOrder seq of
             Forward \<Rightarrow> (baseStepIndex mod len, k)
           | Backward \<Rightarrow> ((len - 1) - (baseStepIndex mod len), k)
           | Pendulum \<Rightarrow>
               if len \<le> 1 then (0, k)
               else
                 let cycle = 2 * len - 2;
                     pos = baseStepIndex mod cycle
                 in (if pos < len then pos else cycle - pos, k)
           | Random \<Rightarrow> (nat (Math_floor (Math_random src k * of_nat len)), Suc k))"

definition gateDuration :: "GateLengthKind \<Rightarrow> rat \<Rightarrow> rat" where
  "gateDuration g ratchetDuration =
     (if g = Tied then ratchetDuration
      else if g = Trigger then 6 / 1000
      else
        let p = (case g of P10 \<Rightarrow> 1 / 10 | P25 \<Rightarrow> 1 / 4 | P50 \<Rightarrow> 1 / 2
                         | P75 \<Rightarrow> 3 / 4 | P90 \<Rightarrow> 9 / 10 | _ \<Rightarrow> 1 / 2)
        in ratchetDuration * p)"

text \<open>\<open>channel.activeSequence || buildPlaybackSequence(channel)\<close>\<close>

definition currentSequence :: "random_source \<Rightarrow> Channel \<Rightarrow> nat \<Rightarrow> error + Sequence \<times> nat" where
  "currentSequence src channel k =
     (case activeSequence channel of
        Some cached \<Rightarrow> Inr (cached, k)
      | None \<Rightarrow> buildPlaybackSequence src channel k)"

text \<open>
  One call of \<open>processChannel\<close>: the tick state is passed in and returned, together with
  the notes sent to a sink.
\<close>

definition processChannel ::
    "random_source \<Rightarrow> Engine \<Rightarrow> ChannelState \<Rightarrow> Channel \<Rightarrow> rat \<Rightarrow> nat
       \<Rightarrow> error + ChannelState \<times> NoteEvent list \<times> nat" where
  "processChannel src engine channelState channel time k =
     (case currentSequence src channel k of
        Inl e \<Rightarrow> Inl e
      | Inr (sequence', k1) \<Rightarrow>
          if seqLength sequence' = 0 then Inr (channelState, [], k1)
          else if nextNoteTime channelState > time + 1 / 10 then Inr (channelState, [], k1)
          else
            let cs1 = (if nextNoteTime channelState = 0
                       then channelState\<lparr>nextNoteTime := time\<rparr> else channelState);
                (stepIndex, k2) = getStepIndexAtTick src sequence' (currentBaseStep cs1) k1
            in if \<not> stepIndex < length (steps sequence')
               then Inr (cs1\<lparr>currentBaseStep := 0\<rparr>, [], k2)
               else if \<not> currentPatternIndex channel < length (patterns channel) then Inl TypeError
               else
                 let step = steps sequence' ! stepIndex;
                     pattern = patterns channel ! currentPatternIndex channel;
                     sixteenthTime = quarterTime engine / 4;
                     ratchets' = (if ratchetsEnabled engine then ratchets step else 1)
                 in if divMult pattern = 0 \<or> ratchets' = 0 then Inl NonFiniteTime
                    else
                      let stepDuration = sixteenthTime / divMult pattern;
                          ratchetDuration = stepDuration / of_nat ratchets';
                          scheduleTime = nextNoteTime cs1;
                          cs2 = (if gateOn step
                                 then cs1\<lparr>lastTriggeredStepIndex := int stepIndex\<rparr> else cs1);
                          events =
                            (if gateOn step
                             then
                               let pitch' = quantizePitch (pitch step) (scale sequence')
                                              + rootOffsetSemitones pattern + 60;
                                   duration = gateDuration (gateLength step) ratchetDuration
                               in if outputMode engine = Midi \<and> midiOutputSelected engine
                                  then [MidiNote pitch' (duration * 1000) scheduleTime]
                                  else [SynthNote pitch' duration scheduleTime]
                             else []);
                          cs3 = cs2\<lparr>currentRatchetCount := currentRatchetCount cs2 + 1,
                                     nextNoteTime := nextNoteTime cs2 + ratchetDuration\<rparr>;
                          cs4 = (if currentRatchetCount cs3 \<ge> ratchets'
                                 then cs3\<lparr>currentRatchetCount := 0,
                                          currentBaseStep := currentBaseStep cs3 + 1\<rparr>
                                 else cs3)
                      in Inr (cs4, events, k2))"

section \<open>Shape of a generated tree\<close>

fun nodeCount :: "TreeNode \<Rightarrow> nat" where
  "nodeCount (TreeNode s d m l r) =
     1 + (case l of None \<Rightarrow> 0 | Some t \<Rightarrow> nodeCount t)
       + (case r of None \<Rightarrow> 0 | Some t \<Rightarrow> nodeCount t)"

text \<open>
  \<open>completeFrom d i node\<close>: \<open>node\<close> carries depth \<open>i\<close>; below depth \<open>d\<close> it has exactly two
  children, which are complete from depth \<open>i + 1\<close>; from depth \<open>d\<close> on it has none.
\<close>

fun completeFrom :: "nat \<Rightarrow> nat \<Rightarrow> TreeNode \<Rightarrow> bool" where
  "completeFrom d i (TreeNode s dep m l r) =
     (dep = i \<and>
      (if i < d
       then (case l of None \<Rightarrow> False | Some a \<Rightarrow> completeFrom d (Suc i) a) \<and>
            (case r of None \<Rightarrow> False | Some b \<Rightarrow> completeFrom d (Suc i) b)
       else l = None \<and> r = None))"


text \<open>
  \<open>uniformTree L n node\<close>: every sequence in the tree below \<open>node\<close> has \<open>length\<close> \<open>L\<close>
  and \<open>n\<close> stored steps.
\<close>

fun uniformTree :: "nat \<Rightarrow> nat \<Rightarrow> TreeNode \<Rightarrow> bool" where
  "uniformTree L n (TreeNode s d m l r) =
     (seqLength s = L \<and> length (steps s) = n \<and>
      (case l of None \<Rightarrow> True | Some a \<Rightarrow> uniformTree L n a) \<and>
      (case r of None \<Rightarrow> True | Some b \<Rightarrow> uniformTree L n b))"

text \<open>\<open>uniformNode L n node\<close>: the same for the sequence of \<open>node\<close> alone.\<close>

definition uniformNode :: "nat \<Rightarrow> nat \<Rightarrow> TreeNode \<Rightarrow> bool" where
  "uniformNode L n node \<longleftrightarrow> seqLength (sequence node) = L \<and> length (steps (sequence node)) = n"

section \<open>What a modification may change\<close>

text \<open>\<open>sameExceptPitch s s'\<close>: the two steps agree in every field other than \<open>pitch\<close>.\<close>

definition sameExceptPitch :: "Step \<Rightarrow> Step \<Rightarrow> bool" where
  "sameExceptPitch s s' \<longleftrightarrow>
     gateOn s' = gateOn s \<and> ratchets s' = ratchets s \<and> slew s' = slew s \<and>
     gateLength s' = gateLength s \<and> stepDepth s' = stepDepth s \<and>
     originalIndex s' = originalIndex s"

text \<open>
  \<open>sameFrame seq seq'\<close>: the same \<open>length\<close>, \<open>scale\<close> and \<open>playbackOrder\<close>, and as many
  stored steps.
\<close>

definition sameFrame :: "Sequence \<Rightarrow> Sequence \<Rightarrow> bool" where
  "sameFrame seq seq' \<longleftrightarrow>
     seqLength seq' = seqLength seq \<and> scale seq' = scale seq \<and>
     playbackOrder seq' = playbackOrder seq \<and> length (steps seq') = length (steps seq)"

text \<open>
  \<open>integerPitch p\<close>: \<open>p\<close> is an integer of absolute value at most \<open>2 ^ 51\<close>, so that sums
  and differences of two such pitches are doubles.
\<close>

definition integerPitch :: "rat \<Rightarrow> bool" where
  "integerPitch p \<longleftrightarrow> of_int \<lfloor>p\<rfloor> = p \<and> \<bar>p\<bar> \<le> 2 ^ 51"

section \<open>Concrete inputs\<close>

text \<open>\<open>createDefaultStep\<close> of initialState.ts, and inputs built from it.\<close>

definition createDefaultStep :: Step where
  "createDefaultStep = \<lparr>pitch = 0, gateOn = False, ratchets = 1, slew = 0, gateLength = P50,
     stepDepth = None, originalIndex = None\<rparr>"

definition gatedStep :: "rat \<Rightarrow> Step" where
  "gatedStep p = createDefaultStep\<lparr>pitch := p, gateOn := True\<rparr>"

text \<open>Four stored steps, of which the first three are active.\<close>

definition exampleTrunk :: Sequence where
  "exampleTrunk = \<lparr>steps = [gatedStep 0, createDefaultStep\<lparr>pitch := 5\<rparr>, gatedStep 9, gatedStep 12],
     seqLength = 3, scale = Major, playbackOrder = Forward\<rparr>"

definition examplePattern :: Pattern where
  "examplePattern = \<lparr>trunk = exampleTrunk, branchesCount = 2, pathValue = 1 / 2,
     mutationAmount = 0, rootOffsetSemitones = 0, divMult = 1,
     branchConfig = [\<lparr>leftKind = Reverse, rightKind = Mutate, leftParam = 0, rightParam = 2\<rparr>,
                     \<lparr>leftKind = Transpose, rightKind = Invert, leftParam = 7, rightParam = 0\<rparr>],
     branchPlaybackOrder = BranchForward\<rparr>"

definition exampleChannel :: Channel where
  "exampleChannel = \<lparr>channelId = 1, currentPatternIndex = 0, patterns = [examplePattern],
     generatedTree = None, activeSequence = None\<rparr>"

text \<open>The same trunk played in pendulum order, in a pattern without branches.\<close>

definition pendulumPattern :: Pattern where
  "pendulumPattern = examplePattern\<lparr>trunk := exampleTrunk\<lparr>playbackOrder := Pendulum\<rparr>,
     branchesCount := 0\<rparr>"

definition pendulumChannel :: Channel where
  "pendulumChannel = exampleChannel\<lparr>patterns := [pendulumPattern]\<rparr>"

definition pendulumTree :: GeneratedTree where
  "pendulumTree = \<lparr>root = TreeNode (exampleTrunk\<lparr>playbackOrder := Pendulum\<rparr>) 0 None None None,
     maxDepth = 0\<rparr>"

text \<open>
  \<open>exampleTrunk\<close> after a mutation by the fallback range \<open>0.3\<close>, with the offsets
  \<open>-0.3\<close>, \<open>0.7\<close> and \<open>0.7\<close> for its three steps with the gate on: the pitches are the
  doubles \<open>-0.3\<close>, \<open>5\<close>, \<open>9.7\<close> and \<open>12.7\<close>.  \<open>mutationSource\<close> is a random source
  that leads to these offsets.
\<close>

definition mutatedTrunk :: Sequence where
  "mutatedTrunk = exampleTrunk\<lparr>steps :=
     [gatedStep (- 5404319552844595 / 18014398509481984), createDefaultStep\<lparr>pitch := 5\<rparr>,
      gatedStep (2730307274093363 / 281474976710656),
      gatedStep (3574732204225331 / 281474976710656)]\<rparr>"

definition mutationSource :: random_source where
  "mutationSource = (\<lambda>k. if k = 0 then 0 else 3 * 2 ^ 51)"

definition zeroSource :: random_source where
  "zeroSource = (\<lambda>k. 0)"

definition exampleEngine :: Engine where
  "exampleEngine = \<lparr>ratchetsEnabled = False, outputMode = Audio, midiOutputSelected = False,
     quarterTime = 1 / 2\<rparr>"

definition initialChannelState :: ChannelState where
  "initialChannelState = \<lparr>currentBaseStep = 0, currentRatchetCount = 0, nextNoteTime = 0,
     lastTriggeredStepIndex = - 1\<rparr>"


section \<open>The quantizer on integer pitches\<close>

lemma octave_int: "Math_floor (of_int p / 12) = p div 12"
  unfolding Math_floor_def by (metis floor_divide_of_int_eq of_int_numeral)

lemma js_trunc_int: "js_trunc (of_int p / 12) = p sdiv 12"
proof (cases "0 \<le> p")
  case True
  have "\<lfloor>(of_int p :: rat) / 12\<rfloor> = p div 12"
    by (metis floor_divide_of_int_eq of_int_numeral)
  with True show ?thesis
    by (simp add: js_trunc_def signed_divide_int_def sgn_if)
next
  case False
  have "\<lfloor>(of_int (- p) :: rat) / 12\<rfloor> = (- p) div 12"
    by (metis floor_divide_of_int_eq of_int_numeral)
  then have "\<lceil>(of_int p :: rat) / 12\<rceil> = - ((- p) div 12)"
    by (simp add: ceiling_def)
  with False show ?thesis
    by (simp add: js_trunc_def signed_divide_int_def sgn_if)
qed

lemma rem_int: "js_rem (of_int p) 12 = of_int (p smod 12)"
proof -
  have "p smod 12 = p - 12 * (p sdiv 12)"
    by (simp add: minus_mult_sdiv_eq_smod)
  then show ?thesis
    by (simp add: js_rem_def js_trunc_int)
qed

lemma round_int: "Math_round (of_int z) = z"
proof -
  have "\<lfloor>(of_int z :: rat) + 1 / 2\<rfloor> = z"
    by (rule floor_unique) simp_all
  then show ?thesis by (simp add: Math_round_def)
qed

lemma smod_12_mod: "(p smod 12) mod 12 = p mod (12::int)"
proof (cases "0 \<le> p")
  case True
  then show ?thesis by (simp add: signed_modulo_int_def sgn_if)
next
  case False
  then have "p smod 12 = - ((- p) mod 12)"
    by (simp add: signed_modulo_int_def sgn_if)
  then show ?thesis by (simp add: mod_minus_eq)
qed

lemma smod_12_lower: "- 12 < p smod (12::int)"
proof -
  have a: "0 \<le> p mod 12" by simp
  have b: "(- p) mod 12 < 12" by simp
  have "- 12 < sgn p * (\<bar>p\<bar> mod 12)"
    using a b by (cases "0 < p"; cases "p = 0"; simp add: sgn_if abs_if; linarith)
  then show ?thesis by (simp add: signed_modulo_int_def)
qed

lemma norm_int: "((p smod 12) + 12) smod 12 = p mod (12::int)"
proof -
  have pos: "0 < p smod 12 + 12"
    using smod_12_lower [of p] by simp
  then have "((p smod 12) + 12) smod 12 = ((p smod 12) + 12) mod 12"
    by (simp add: signed_modulo_int_def sgn_if)
  also have "\<dots> = (p smod 12) mod 12"
    by simp
  finally show ?thesis
    by (simp only: smod_12_mod)
qed

lemma normalized_note_int:
  "((Math_round (js_rem (of_int p) 12) smod 12) + 12) smod 12 = p mod 12"
proof -
  have "((p smod 12) smod 12 + 12) smod 12 = (p smod 12) mod 12"
    by (rule norm_int)
  then show ?thesis
    by (simp only: rem_int round_int smod_12_mod)
qed

lemma snap_octave: "snap ivs octave n = 12 * octave + snap ivs 0 n"
  by (simp add: snap_def Let_def split: prod.splits)

lemma SCALES_empty: "SCALES s = [] \<longleftrightarrow> s = Unquantized"
  by (cases s) simp_all

lemma quantize_int:
  assumes "s \<noteq> Unquantized"
  shows "quantizePitch (of_int p) s = of_int (12 * (p div 12) + snap (SCALES s) 0 (p mod 12))"
proof -
  have "quantizePitch (of_int p) s = of_int (snap (SCALES s) (p div 12) (p mod 12))"
    unfolding quantizePitch_def Let_def octave_int normalized_note_int
    using assms by (simp only: SCALES_empty if_False)
  then show ?thesis
    by (simp only: snap_octave [of _ "p div 12"])
qed

lemma note_cases:
  assumes "0 \<le> n" "n < (12::int)"
  shows "n \<in> {0, 1, 2, 3, 4, 5, 6, 7, 8, 9, 10, 11}"
proof -
  have "[0..11::int] = [0, 1, 2, 3, 4, 5, 6, 7, 8, 9, 10, 11]"
    by code_simp
  moreover have "n \<in> set [0..11]"
    using assms by simp
  ultimately show ?thesis
    by simp
qed

lemma snap_fixed:
  assumes "s \<noteq> Unquantized" "0 \<le> n" "n < 12"
  shows "snap (SCALES s) (snap (SCALES s) 0 n div 12) (snap (SCALES s) 0 n mod 12) = snap (SCALES s) 0 n"
proof -
  have "\<forall>m \<in> {0, 1, 2, 3, 4, 5, 6, 7, 8, 9, 10, 11}.
          snap (SCALES s) (snap (SCALES s) 0 m div 12) (snap (SCALES s) 0 m mod 12) = snap (SCALES s) 0 m"
    using assms(1) by (cases s) (simp_all add: snap_def below_def)
  then show ?thesis
    using note_cases [OF assms(2,3)] by blast
qed

text \<open>
  Claim C3.  For every scale and every integer pitch, negative ones included, quantizing
  the pitch an octave higher gives the quantized pitch plus 12.
\<close>

theorem quantizePitch_octave_invariance:
  "quantizePitch (of_int p + 12) s = quantizePitch (of_int p) s + 12"
proof (cases "s = Unquantized")
  case True
  then show ?thesis by (simp add: quantizePitch_def)
next
  case False
  have "quantizePitch (of_int (p + 12)) s =
          of_int (12 * ((p + 12) div 12) + snap (SCALES s) 0 ((p + 12) mod 12))"
    using False by (rule quantize_int)
  moreover have "(p + 12) div 12 = p div 12 + 1" "(p + 12) mod 12 = p mod 12"
    by simp_all
  ultimately show ?thesis
    using quantize_int [OF False, of p] by simp
qed

text \<open>
  Claim C4.  For every scale and every integer pitch, quantizing a quantized pitch
  changes nothing.
\<close>

theorem quantizePitch_idempotent:
  "quantizePitch (quantizePitch (of_int p) s) s = quantizePitch (of_int p) s"
proof (cases "s = Unquantized")
  case True
  then show ?thesis by (simp add: quantizePitch_def)
next
  case False
  define z where "z = snap (SCALES s) 0 (p mod 12)"
  define q where "q = 12 * (p div 12) + z"
  have q: "quantizePitch (of_int p) s = of_int q"
    using quantize_int [OF False, of p] by (simp add: q_def z_def)
  have "q div 12 = p div 12 + z div 12" "q mod 12 = z mod 12"
    by (simp_all add: q_def)
  then have "quantizePitch (of_int q) s =
               of_int (12 * (p div 12 + z div 12) + snap (SCALES s) 0 (z mod 12))"
    using quantize_int [OF False, of q] by simp
  also have "12 * (p div 12 + z div 12) + snap (SCALES s) 0 (z mod 12) =
               12 * (p div 12) + snap (SCALES s) (z div 12) (z mod 12)"
    using snap_octave [of "SCALES s" "z div 12" "z mod 12"] by simp
  also have "snap (SCALES s) (z div 12) (z mod 12) = z"
    unfolding z_def using False by (rule snap_fixed) simp_all
  finally show ?thesis
    by (simp add: q q_def)
qed

section \<open>Index resolution and the empty sequence\<close>

lemma Math_random_range: "0 \<le> Math_random src k" "Math_random src k < 1"
proof -
  show "0 \<le> Math_random src k"
    by (simp add: Math_random_def)
  have "src k mod 2 ^ 53 < 2 ^ 53"
    by simp
  then have "(of_nat (src k mod 2 ^ 53) :: rat) < of_nat (2 ^ 53)"
    by (simp only: of_nat_less_iff)
  then show "Math_random src k < 1"
    by (simp add: Math_random_def)
qed

lemma random_index_below:
  assumes "0 < n"
  shows "nat (Math_floor (Math_random src k * of_nat n)) < n"
proof -
  have "Math_random src k * of_nat n < 1 * of_nat n"
    using assms Math_random_range(2) [of src k] by (intro mult_strict_right_mono) simp_all
  then have "Math_floor (Math_random src k * of_nat n) < int n"
    by (simp add: Math_floor_def floor_less_iff)
  then show ?thesis
    using assms by simp
qed

text \<open>
  Claim C9.  For a sequence of length at least 1 and every counter, the resolved index
  is below the length, in each of the four playback orders, so that it addresses a
  stored step whenever the length does not exceed the number of stored steps; for
  length 0 the index is 0.
\<close>

theorem getStepIndexAtTick_in_range:
  "(0 < seqLength seq \<longrightarrow> fst (getStepIndexAtTick src seq n k) < seqLength seq) \<and>
   (0 < seqLength seq \<longrightarrow> seqLength seq \<le> length (steps seq) \<longrightarrow>
      fst (getStepIndexAtTick src seq n k) < length (steps seq)) \<and>
   (seqLength seq = 0 \<longrightarrow> fst (getStepIndexAtTick src seq n k) = 0)"
proof -
  have zero: "seqLength seq = 0 \<Longrightarrow> fst (getStepIndexAtTick src seq n k) = 0"
    by (simp add: getStepIndexAtTick_def)
  have below: "fst (getStepIndexAtTick src seq n k) < seqLength seq" if pos: "0 < seqLength seq"
  proof (cases "playbackOrder seq")
    case Forward
    with pos show ?thesis by (simp add: getStepIndexAtTick_def Let_def)
  next
    case Backward
    with pos show ?thesis by (simp add: getStepIndexAtTick_def Let_def)
  next
    case Pendulum
    show ?thesis
    proof (cases "seqLength seq \<le> 1")
      case True
      with pos Pendulum show ?thesis by (simp add: getStepIndexAtTick_def Let_def)
    next
      case False
      define pos where "pos = n mod (2 * seqLength seq - 2)"
      have bound: "pos < 2 * seqLength seq - 2"
        unfolding pos_def using False by simp
      have "fst (getStepIndexAtTick src seq n k) =
              (if pos < seqLength seq then pos else 2 * seqLength seq - 2 - pos)"
        using False Pendulum by (simp add: getStepIndexAtTick_def Let_def pos_def)
      with bound show ?thesis
        by (simp split: if_splits) linarith?
    qed
  next
    case Random
    with pos random_index_below [OF pos, of src k] show ?thesis
      by (simp add: getStepIndexAtTick_def Let_def)
  qed
  from zero below show ?thesis
    by auto
qed

theorem getStepIndexAtTick_in_range_witness:
  "0 < seqLength exampleTrunk \<and> seqLength exampleTrunk \<le> length (steps exampleTrunk) \<and>
   fst (getStepIndexAtTick zeroSource (exampleTrunk\<lparr>playbackOrder := Random\<rparr>) 7 0) < 3 \<and>
   fst (getStepIndexAtTick zeroSource (exampleTrunk\<lparr>playbackOrder := Backward\<rparr>) 7 0) < 3 \<and>
   seqLength (exampleTrunk\<lparr>seqLength := 0\<rparr>) = 0 \<and>
   fst (getStepIndexAtTick zeroSource (exampleTrunk\<lparr>seqLength := 0\<rparr>) 7 0) = 0"
  using getStepIndexAtTick_in_range [of "exampleTrunk\<lparr>playbackOrder := Random\<rparr>" zeroSource 7 0]
    getStepIndexAtTick_in_range [of "exampleTrunk\<lparr>playbackOrder := Backward\<rparr>" zeroSource 7 0]
    getStepIndexAtTick_in_range [of "exampleTrunk\<lparr>seqLength := 0\<rparr>" zeroSource 7 0]
  by (simp add: exampleTrunk_def)

text \<open>
  Claim C6.  In pendulum order a sequence of length \<open>L > 1\<close> resolves counter \<open>n\<close> to
  \<open>pos\<close> if \<open>pos < L\<close> and to \<open>C - pos\<close> otherwise, where \<open>C = 2 L - 2\<close> and
  \<open>pos = n mod C\<close>; a sequence of length at most 1 resolves every counter to 0.  For
  length 4 the counters 0 to 7 give 0, 1, 2, 3, 2, 1, 0, 1.
\<close>

theorem pendulum_index_resolution:
  assumes "playbackOrder seq = Pendulum"
  shows "fst (getStepIndexAtTick src seq n k) =
           (if 1 < seqLength seq
            then (let C = 2 * seqLength seq - 2; pos = n mod C
                  in if pos < seqLength seq then pos else C - pos)
            else 0) \<and>
         (seqLength seq = 4 \<longrightarrow>
            map (\<lambda>n. fst (getStepIndexAtTick src seq n k)) [0, 1, 2, 3, 4, 5, 6, 7]
              = [0, 1, 2, 3, 2, 1, 0, 1])"
  using assms by (simp add: getStepIndexAtTick_def Let_def)

theorem pendulum_index_resolution_witness:
  "playbackOrder (exampleTrunk\<lparr>seqLength := 4, playbackOrder := Pendulum\<rparr>) = Pendulum \<and>
   seqLength (exampleTrunk\<lparr>seqLength := 4, playbackOrder := Pendulum\<rparr>) = 4 \<and>
   map (\<lambda>n. fst (getStepIndexAtTick zeroSource (exampleTrunk\<lparr>seqLength := 4, playbackOrder := Pendulum\<rparr>) n 0))
     [0, 1, 2, 3, 4, 5, 6, 7] = [0, 1, 2, 3, 2, 1, 0, 1]"
  using pendulum_index_resolution [of "exampleTrunk\<lparr>seqLength := 4, playbackOrder := Pendulum\<rparr>" zeroSource 0 0]
  by (simp add: exampleTrunk_def)

text \<open>
  Claim C8.  When the sequence that a tick plays (the cached one, or else the one it
  builds) has length 0, \<open>processChannel\<close> returns normally, sends no note and leaves
  the four fields of the tick state as they were.
\<close>

theorem processChannel_zero_length:
  assumes "currentSequence src channel k = Inr (sq, k1)" and "seqLength sq = 0"
  shows "processChannel src engine channelState channel time k = Inr (channelState, [], k1)"
  using assms by (simp add: processChannel_def)

theorem processChannel_zero_length_witness:
  "currentSequence zeroSource (exampleChannel\<lparr>activeSequence := Some (exampleTrunk\<lparr>seqLength := 0\<rparr>)\<rparr>) 0
      = Inr (exampleTrunk\<lparr>seqLength := 0\<rparr>, 0) \<and>
   seqLength (exampleTrunk\<lparr>seqLength := 0\<rparr>) = 0 \<and>
   processChannel zeroSource exampleEngine initialChannelState
      (exampleChannel\<lparr>activeSequence := Some (exampleTrunk\<lparr>seqLength := 0\<rparr>)\<rparr>) 3 0
      = Inr (initialChannelState, [], 0)"
proof -
  have h: "currentSequence zeroSource (exampleChannel\<lparr>activeSequence := Some (exampleTrunk\<lparr>seqLength := 0\<rparr>)\<rparr>) 0
      = Inr (exampleTrunk\<lparr>seqLength := 0\<rparr>, 0)"
    by (simp add: currentSequence_def)
  show ?thesis
    using h processChannel_zero_length [OF h, of exampleEngine initialChannelState 3]
    by simp
qed


section \<open>Rounding to doubles\<close>

lemma roundHalfEven_of_int: "roundHalfEven (of_int m) = m"
  by (simp add: roundHalfEven_def)

lemma expo_of_int:
  assumes "z \<noteq> 0" and "\<bar>z\<bar> < 2 ^ 53"
  shows "0 \<le> expo (of_int z) \<and> expo (of_int z) \<le> 52"
proof -
  have pos: "0 < \<bar>z\<bar>" using assms(1) by simp
  have e: "expo (of_int z) = bitlen \<bar>z\<bar> - 1"
  proof -
    have "(1::rat) \<le> of_int \<bar>z\<bar>" using pos by simp
    moreover have "\<bar>of_int z :: rat\<bar> = of_int \<bar>z\<bar>" by simp
    ultimately show ?thesis by (simp add: expo_def del: of_int_abs)
  qed
  have "bitlen \<bar>z\<bar> \<noteq> 0"
    using pos by (simp add: bitlen_eq_zero_iff)
  then have one: "1 \<le> bitlen \<bar>z\<bar>"
    using bitlen_nonneg [of "\<bar>z\<bar>"] by simp
  have "(2::int) ^ nat (bitlen \<bar>z\<bar> - 1) \<le> \<bar>z\<bar>"
    using bitlen_bounds [OF pos] by simp
  then have "(2::int) ^ nat (bitlen \<bar>z\<bar> - 1) < 2 ^ 53"
    using assms(2) by simp
  then have "nat (bitlen \<bar>z\<bar> - 1) < 53"
    by (simp only: power_strict_increasing_iff [of 2] one_less_numeral_iff semiring_norm)
  with one show ?thesis
    by (simp add: e)
qed

lemma roundDouble_of_int:
  assumes "\<bar>z\<bar> < 2 ^ 53"
  shows "roundDouble (of_int z) = of_int z"
proof (cases "z = 0")
  case True
  then show ?thesis by (simp add: roundDouble_def roundHalfEven_def)
next
  case False
  define k where "k = nat (52 - expo (of_int z))"
  have e: "expo (of_int z) - 52 = - int k"
    using expo_of_int [OF False assms] by (simp add: k_def)
  have ulp: "(2::rat) powi (expo (of_int z) - 52) = 1 / 2 ^ k"
    by (simp add: e power_int_minus field_simps)
  have "of_int z / (1 / 2 ^ k) = (of_int (z * 2 ^ k) :: rat)"
    by simp
  then have "roundHalfEven (of_int z / (1 / 2 ^ k)) = z * 2 ^ k"
    by (simp only: roundHalfEven_of_int)
  then show ?thesis
    by (simp add: roundDouble_def ulp)
qed

lemma fsub_of_int:
  assumes "\<bar>a - b\<bar> < 2 ^ 53"
  shows "fsub (of_int a) (of_int b) = of_int (a - b)"
  using roundDouble_of_int [OF assms] by (simp add: fsub_def)


lemma integerPitchE:
  assumes "integerPitch p"
  obtains z where "p = of_int z" and "\<bar>z\<bar> \<le> 2 ^ 51"
proof -
  from assms obtain z where p: "p = of_int z" and b: "\<bar>p\<bar> \<le> 2 ^ 51"
    by (auto simp: integerPitch_def)
  have "(of_int \<bar>z\<bar> :: rat) \<le> of_int (2 ^ 51)"
    using b p by simp
  then have "\<bar>z\<bar> \<le> 2 ^ 51"
    by (simp only: of_int_le_iff)
  with p that show thesis by blast
qed

lemma integerPitch_of_int: "\<bar>z\<bar> \<le> 2 ^ 51 \<Longrightarrow> integerPitch (of_int z)"
proof -
  assume "\<bar>z\<bar> \<le> 2 ^ 51"
  then have "(of_int \<bar>z\<bar> :: rat) \<le> of_int (2 ^ 51)"
    by (simp only: of_int_le_iff)
  then show ?thesis
    by (simp add: integerPitch_def)
qed

lemma mirror_integerPitch:
  assumes "integerPitch lo" "integerPitch hi" "integerPitch p" "lo \<le> p" "p \<le> hi"
  shows "fsub hi (fsub p lo) = hi - (p - lo) \<and> integerPitch (hi - (p - lo))"
proof -
  from assms(1) obtain a where a: "lo = of_int a" "\<bar>a\<bar> \<le> 2 ^ 51" by (rule integerPitchE)
  from assms(2) obtain b where b: "hi = of_int b" "\<bar>b\<bar> \<le> 2 ^ 51" by (rule integerPitchE)
  from assms(3) obtain c where c: "p = of_int c" "\<bar>c\<bar> \<le> 2 ^ 51" by (rule integerPitchE)
  have ord: "a \<le> c" "c \<le> b"
    using assms(4,5) by (simp_all add: a b c)
  have "\<bar>c - a\<bar> < 2 ^ 53"
    using a(2) c(2) by simp
  then have one: "fsub p lo = of_int (c - a)"
    by (simp only: a c fsub_of_int)
  have "\<bar>b - (c - a)\<bar> < 2 ^ 53"
    using a(2) b(2) c(2) by simp
  then have two: "fsub hi (of_int (c - a)) = of_int (b - (c - a))"
    by (simp only: b fsub_of_int)
  have "\<bar>b - (c - a)\<bar> \<le> 2 ^ 51"
    using a(2) b(2) ord by simp
  then have "integerPitch (of_int (b - (c - a)))"
    by (rule integerPitch_of_int)
  with one two show ?thesis
    by (simp add: a b c)
qed


lemma pow2_sandwich:
  fixes n :: int
  assumes "2 ^ a \<le> n" "n < 2 ^ Suc a" "2 ^ b \<le> n" "n < 2 ^ Suc b"
  shows "a = b"
proof -
  have "(2::int) ^ a < 2 ^ Suc b" using assms(1,4) by linarith
  then have "a < Suc b" by (simp only: power_strict_increasing_iff [of 2] one_less_numeral_iff semiring_norm)
  moreover have "(2::int) ^ b < 2 ^ Suc a" using assms(2,3) by linarith
  then have "b < Suc a" by (simp only: power_strict_increasing_iff [of 2] one_less_numeral_iff semiring_norm)
  ultimately show ?thesis by simp
qed

lemma bitlen_eqI:
  assumes "2 ^ a \<le> n" "n < 2 ^ Suc a"
  shows "bitlen n = int (Suc a)"
proof -
  have "(0::int) < 2 ^ a" by simp
  with assms(1) have pos: "0 < n" by linarith
  have ne: "bitlen n \<noteq> 0"
    using pos by (simp add: bitlen_eq_zero_iff)
  then have one: "1 \<le> bitlen n"
    using bitlen_nonneg [of n] by simp
  define b where "b = nat (bitlen n - 1)"
  have bl: "bitlen n = int (Suc b)"
    using one by (simp add: b_def)
  have nb: "nat (bitlen n - 1) = b" "nat (bitlen n) = Suc b"
    using one by (simp_all add: b_def)
  have "2 ^ b \<le> n" "n < 2 ^ Suc b"
    using bitlen_bounds [OF pos] unfolding nb by simp_all
  with assms have "a = b"
    by (rule pow2_sandwich)
  then show ?thesis by (simp add: bl)
qed

lemma expo_eqI:
  assumes lo: "2 powi e \<le> \<bar>x\<bar>" and hi: "\<bar>x\<bar> < 2 powi (e + 1)"
  shows "expo x = e"
proof (cases "1 \<le> \<bar>x\<bar>")
  case True
  have e0: "0 \<le> e"
  proof (rule ccontr)
    assume "\<not> 0 \<le> e"
    then have "e + 1 \<le> 0" by simp
    then have "(2::rat) powi (e + 1) \<le> 2 powi 0"
      by (intro power_int_increasing) simp_all
    with hi True show False by simp
  qed
  define a where "a = nat e"
  have e: "e = int a" using e0 by (simp add: a_def)
  have p: "(2::rat) powi e = of_int (2 ^ a)" "(2::rat) powi (e + 1) = of_int (2 ^ Suc a)"
    by (simp_all add: e power_int_add)
  have "2 ^ a \<le> \<lfloor>\<bar>x\<bar>\<rfloor>"
    using lo unfolding p by (simp only: le_floor_iff)
  moreover have "\<lfloor>\<bar>x\<bar>\<rfloor> < 2 ^ Suc a"
    using hi unfolding p by (simp only: floor_less_iff)
  ultimately have "bitlen \<lfloor>\<bar>x\<bar>\<rfloor> = int (Suc a)"
    by (rule bitlen_eqI)
  with True show ?thesis
    by (simp add: expo_def e)
next
  case False
  have "(0::rat) < 2 powi e" by (rule zero_less_power_int) simp
  with lo have xpos: "0 < \<bar>x\<bar>" by linarith
  have eneg: "e < 0"
  proof (rule ccontr)
    assume "\<not> e < 0"
    then have "(2::rat) powi 0 \<le> 2 powi e"
      by (intro power_int_increasing) simp_all
    with lo False show False by simp
  qed
  define a where "a = nat (- e - 1)"
  have e: "e = - int (Suc a)" using eneg by (simp add: a_def)
  have e1: "e + 1 = - int a" by (simp add: e)
  have p: "(2::rat) powi e = 1 / 2 ^ Suc a" "(2::rat) powi (e + 1) = 1 / 2 ^ a"
    unfolding e1 unfolding e
    by (simp_all only: power_int_minus power_int_of_nat inverse_eq_divide)
  have q1: "1 / \<bar>x\<bar> \<le> of_int (2 ^ Suc a)"
    using lo xpos unfolding p by (simp add: field_simps)
  have q2: "of_int (2 ^ a) < 1 / \<bar>x\<bar>"
    using hi xpos unfolding p by (simp add: field_simps)
  have "\<lceil>1 / \<bar>x\<bar>\<rceil> \<le> 2 ^ Suc a"
    using q1 by (simp only: ceiling_le_iff)
  moreover have "2 ^ a < \<lceil>1 / \<bar>x\<bar>\<rceil>"
    using q2 by (simp only: less_ceiling_iff)
  ultimately have "2 ^ a \<le> \<lceil>1 / \<bar>x\<bar>\<rceil> - 1" "\<lceil>1 / \<bar>x\<bar>\<rceil> - 1 < 2 ^ Suc a"
    by simp_all
  then have "bitlen (\<lceil>1 / \<bar>x\<bar>\<rceil> - 1) = int (Suc a)"
    by (rule bitlen_eqI)
  with False show ?thesis
    by (simp add: expo_def e)
qed

lemma roundHalfEven_near:
  assumes "\<bar>y - of_int m\<bar> < 1 / 2"
  shows "roundHalfEven y = m"
proof (cases "of_int m \<le> y")
  case True
  with assms have "\<lfloor>y\<rfloor> = m"
    by (intro floor_unique) (simp_all add: abs_if split: if_splits)
  with assms True show ?thesis
    by (simp add: roundHalfEven_def Let_def abs_if split: if_splits)
next
  case False
  with assms have f: "\<lfloor>y\<rfloor> = m - 1"
    by (intro floor_unique) (simp_all add: abs_if split: if_splits)
  have "\<not> y - of_int (m - 1) < 1 / 2" "y - of_int (m - 1) > 1 / 2"
    using assms False by (simp_all add: abs_if split: if_splits)
  then show ?thesis
    by (simp add: roundHalfEven_def Let_def f)
qed

lemma roundHalfEven_tie:
  assumes "y = of_int m + 1 / 2 \<or> y = of_int m - 1 / 2" and "even m"
  shows "roundHalfEven y = m"
  using assms(1)
proof
  assume y: "y = of_int m + 1 / 2"
  have "\<lfloor>y\<rfloor> = m"
    by (rule floor_unique) (simp_all add: y)
  with assms(2) show ?thesis
    by (simp add: roundHalfEven_def Let_def y)
next
  assume y: "y = of_int m - 1 / 2"
  have f: "\<lfloor>y\<rfloor> = m - 1"
    by (rule floor_unique) (simp_all add: y)
  have d: "y - of_int (m - 1) = 1 / 2"
    by (simp add: y)
  have "odd (m - 1)" using assms(2) by simp
  then show ?thesis
    unfolding roundHalfEven_def f Let_def d by simp
qed

lemma roundDouble_nearI:
  assumes "2 powi e \<le> \<bar>x\<bar>" and "\<bar>x\<bar> < 2 powi (e + 1)"
    and "\<bar>x / 2 powi (e - 52) - of_int m\<bar> < 1 / 2"
    and "y = of_int m * 2 powi (e - 52)"
  shows "roundDouble x = y"
  using roundHalfEven_near [OF assms(3)] expo_eqI [OF assms(1,2)] assms(4)
  by (simp add: roundDouble_def)

lemma roundDouble_tieI:
  assumes "2 powi e \<le> \<bar>x\<bar>" and "\<bar>x\<bar> < 2 powi (e + 1)"
    and "x / 2 powi (e - 52) = of_int m + 1 / 2 \<or> x / 2 powi (e - 52) = of_int m - 1 / 2"
    and "even m"
    and "y = of_int m * 2 powi (e - 52)"
  shows "roundDouble x = y"
  using roundHalfEven_tie [OF assms(3,4)] expo_eqI [OF assms(1,2)] assms(5)
  by (simp add: roundDouble_def)

lemma roundDouble_zero: "roundDouble 0 = 0"
  by (simp add: roundDouble_def roundHalfEven_def)

section \<open>Modifications\<close>

lemma cloneSequence_id: "cloneSequence seq = seq"
  by (simp add: cloneSequence_def)

lemma minmax_loop_Some:
  "minmax_loop xs (Some a, Some b) =
     (Some (fold min (map pitch xs) a), Some (fold max (map pitch xs) b))"
proof (induction xs arbitrary: a b)
  case Nil
  then show ?case by simp
next
  case (Cons s rest)
  have "minmax_loop (s # rest) (Some a, Some b) =
          minmax_loop rest (Some (min (pitch s) a), Some (max (pitch s) b))"
    by (simp add: min_def max_def)
  then show ?case
    by (simp only: Cons.IH list.map fold_simps)
qed

lemma minmax_loop_start:
  assumes "xs \<noteq> []"
  shows "minmax_loop xs (None, None) = (Some (Min (pitch ` set xs)), Some (Max (pitch ` set xs)))"
proof -
  obtain s rest where xs: "xs = s # rest"
    using assms by (cases xs) auto
  have "minmax_loop xs (None, None) = minmax_loop rest (Some (pitch s), Some (pitch s))"
    by (simp add: xs)
  also have "\<dots> = (Some (fold min (map pitch rest) (pitch s)), Some (fold max (map pitch rest) (pitch s)))"
    by (rule minmax_loop_Some)
  also have "fold min (map pitch rest) (pitch s) = Min (set (pitch s # map pitch rest))"
    by (simp only: Min.set_eq_fold)
  also have "fold max (map pitch rest) (pitch s) = Max (set (pitch s # map pitch rest))"
    by (simp only: Max.set_eq_fold)
  finally show ?thesis
    by (simp add: xs)
qed

lemma invertSequence_steps:
  assumes "steps seq \<noteq> []"
  shows "invertSequence seq =
           seq\<lparr>steps := map (\<lambda>s. s\<lparr>pitch := fsub (Max (pitch ` set (steps seq)))
                                   (fsub (pitch s) (Min (pitch ` set (steps seq))))\<rparr>) (steps seq)\<rparr>"
  using assms by (simp add: invertSequence_def cloneSequence_id minmax_loop_start)

lemma invertSequence_empty:
  assumes "steps seq = []"
  shows "invertSequence seq = seq"
  using assms by (simp add: invertSequence_def cloneSequence_id)

lemma invertSequence_exact:
  assumes ne: "steps seq \<noteq> []"
    and ip: "list_all (\<lambda>s. integerPitch (pitch s)) (steps seq)"
  shows "invertSequence seq =
           seq\<lparr>steps := map (\<lambda>s. s\<lparr>pitch := Max (pitch ` set (steps seq))
                                   - (pitch s - Min (pitch ` set (steps seq)))\<rparr>) (steps seq)\<rparr>"
    and "list_all (\<lambda>s. integerPitch (pitch s)) (steps (invertSequence seq))"
proof -
  let ?P = "pitch ` set (steps seq)"
  have fin: "finite ?P" "?P \<noteq> {}"
    using ne by simp_all
  have mem: "integerPitch p" if "p \<in> ?P" for p
    using ip that by (auto simp: list_all_iff)
  have lo: "integerPitch (Min ?P)"
    using Min_in [OF fin] by (rule mem)
  have hi: "integerPitch (Max ?P)"
    using Max_in [OF fin] by (rule mem)
  have each: "fsub (Max ?P) (fsub (pitch s) (Min ?P)) = Max ?P - (pitch s - Min ?P) \<and>
              integerPitch (Max ?P - (pitch s - Min ?P))" if s: "s \<in> set (steps seq)" for s
  proof -
    have "pitch s \<in> ?P" using s by (rule imageI)
    then show ?thesis
      using fin by (intro mirror_integerPitch lo hi mem) simp_all
  qed
  show first: "invertSequence seq =
           seq\<lparr>steps := map (\<lambda>s. s\<lparr>pitch := Max ?P - (pitch s - Min ?P)\<rparr>) (steps seq)\<rparr>"
    using each by (simp add: invertSequence_steps [OF ne] cong: map_cong)
  show "list_all (\<lambda>s. integerPitch (pitch s)) (steps (invertSequence seq))"
    using each by (simp add: first list_all_iff)
qed

lemma mirror_Min:
  fixes P :: "rat set"
  assumes "finite P" "P \<noteq> {}"
  shows "Min ((\<lambda>p. Max P - (p - Min P)) ` P) = Min P"
proof (rule Min_eqI)
  show "finite ((\<lambda>p. Max P - (p - Min P)) ` P)" using assms by simp
  show "Min P \<le> y" if y: "y \<in> (\<lambda>p. Max P - (p - Min P)) ` P" for y
  proof -
    obtain p where "p \<in> P" "y = Max P - (p - Min P)" using y by blast
    moreover have "p \<le> Max P" using assms \<open>p \<in> P\<close> by simp
    ultimately show ?thesis by simp
  qed
  have "Max P \<in> P" using assms by simp
  then have "Max P - (Max P - Min P) \<in> (\<lambda>p. Max P - (p - Min P)) ` P" by (rule imageI)
  then show "Min P \<in> (\<lambda>p. Max P - (p - Min P)) ` P" by simp
qed

lemma mirror_Max:
  fixes P :: "rat set"
  assumes "finite P" "P \<noteq> {}"
  shows "Max ((\<lambda>p. Max P - (p - Min P)) ` P) = Max P"
proof (rule Max_eqI)
  show "finite ((\<lambda>p. Max P - (p - Min P)) ` P)" using assms by simp
  show "y \<le> Max P" if y: "y \<in> (\<lambda>p. Max P - (p - Min P)) ` P" for y
  proof -
    obtain p where "p \<in> P" "y = Max P - (p - Min P)" using y by blast
    moreover have "Min P \<le> p" using assms \<open>p \<in> P\<close> by simp
    ultimately show ?thesis by simp
  qed
  have "Min P \<in> P" using assms by simp
  then have "Max P - (Min P - Min P) \<in> (\<lambda>p. Max P - (p - Min P)) ` P" by (rule imageI)
  then show "Max P \<in> (\<lambda>p. Max P - (p - Min P)) ` P" by simp
qed

lemma invertSequence_twice:
  assumes ip: "list_all (\<lambda>s. integerPitch (pitch s)) (steps seq)"
  shows "invertSequence (invertSequence seq) = seq"
proof (cases "steps seq = []")
  case True
  then show ?thesis by (simp add: invertSequence_empty)
next
  case False
  define P where "P = pitch ` set (steps seq)"
  define f where "f = (\<lambda>p. Max P - (p - Min P))"
  have fin: "finite P" "P \<noteq> {}"
    using False by (simp_all add: P_def)
  have one: "invertSequence seq = seq\<lparr>steps := map (\<lambda>s. s\<lparr>pitch := f (pitch s)\<rparr>) (steps seq)\<rparr>"
    using invertSequence_exact(1) [OF False ip] by (simp add: P_def f_def)
  have ip': "list_all (\<lambda>s. integerPitch (pitch s)) (steps (invertSequence seq))"
    using False ip by (rule invertSequence_exact(2))
  have img: "pitch ` set (steps (invertSequence seq)) = f ` P"
    by (simp add: one P_def image_image)
  have ne: "steps (invertSequence seq) \<noteq> []"
    using False by (simp add: one)
  have mm: "Min (f ` P) = Min P" "Max (f ` P) = Max P"
    unfolding f_def using fin by (rule mirror_Min, rule mirror_Max)
  have "invertSequence (invertSequence seq) =
          (invertSequence seq)\<lparr>steps := map (\<lambda>s. s\<lparr>pitch := Max (f ` P) - (pitch s - Min (f ` P))\<rparr>)
             (steps (invertSequence seq))\<rparr>"
    using invertSequence_exact(1) [OF ne ip'] by (simp only: img)
  then have "invertSequence (invertSequence seq) =
          (invertSequence seq)\<lparr>steps := map (\<lambda>s. s\<lparr>pitch := Max P - (pitch s - Min P)\<rparr>)
             (steps (invertSequence seq))\<rparr>"
    by (simp only: mm)
  also have "\<dots> = seq\<lparr>steps := map (\<lambda>s. s\<lparr>pitch := f (f (pitch s))\<rparr>) (steps seq)\<rparr>"
    by (simp add: one comp_def f_def)
  also have "\<dots> = seq"
    by (simp add: f_def)
  finally show ?thesis .
qed

lemma copy_back:
  assumes "n \<le> length a" "n \<le> length xs"
  shows "fold (\<lambda>i st. st[i := a ! i]) [0..<n] xs = take n a @ drop n xs"
  using assms
proof (induction n)
  case 0
  then show ?case by simp
next
  case (Suc n)
  have n: "n < length a" "n < length xs"
    using Suc.prems by simp_all
  have "fold (\<lambda>i st. st[i := a ! i]) [0..<Suc n] xs = (take n a @ drop n xs)[n := a ! n]"
    using Suc.IH n by simp
  also have "\<dots> = take n a @ (drop n xs)[0 := a ! n]"
    using n by (simp add: list_update_append)
  also have "drop n xs = xs ! n # drop (Suc n) xs"
    using n by (simp add: Cons_nth_drop_Suc)
  finally show ?case
    using n by (simp add: take_Suc_conv_app_nth)
qed

lemma reverseSequence_Inr:
  assumes "seqLength seq \<le> length (steps seq)"
  shows "reverseSequence seq =
           Inr (seq\<lparr>steps := rev (take (seqLength seq) (steps seq)) @ drop (seqLength seq) (steps seq)\<rparr>)"
proof -
  have "fold (\<lambda>i st. st[i := rev (take (seqLength seq) (steps seq)) ! i]) [0..<seqLength seq] (steps seq)
          = take (seqLength seq) (rev (take (seqLength seq) (steps seq))) @ drop (seqLength seq) (steps seq)"
    using assms by (intro copy_back) simp_all
  then show ?thesis
    using assms by (simp add: reverseSequence_def cloneSequence_id Let_def)
qed

lemma reverseSequence_Inl:
  assumes "\<not> seqLength seq \<le> length (steps seq)"
  shows "reverseSequence seq = Inl HolesInSteps"
  using assms by (simp add: reverseSequence_def cloneSequence_id Let_def)

lemma transposeSequence_steps:
  "transposeSequence seq n = seq\<lparr>steps := map (\<lambda>s. s\<lparr>pitch := fadd (pitch s) n\<rparr>) (steps seq)\<rparr>"
  by (simp add: transposeSequence_def cloneSequence_id)

lemma mutate_loop_all2:
  "list_all2 (\<lambda>s s'. if gateOn s then sameExceptPitch s s' else s' = s) xs (fst (mutate_loop src r xs k))"
proof (induction xs arbitrary: k)
  case Nil
  then show ?case by simp
next
  case (Cons s rest)
  show ?case
    using Cons.IH [of "Suc k"] Cons.IH [of k]
    by (simp add: split_beta Let_def sameExceptPitch_def)
qed


lemma mutateSequence_steps:
  "mutateSequence src seq r k =
     (if r = 0 then (seq, k)
      else (seq\<lparr>steps := fst (mutate_loop src r (steps seq) k)\<rparr>, snd (mutate_loop src r (steps seq) k)))"
  by (simp add: mutateSequence_def cloneSequence_id split_beta Let_def)

lemma all2_weaken_mutate:
  "list_all2 (\<lambda>s s'. if gateOn s then sameExceptPitch s s' else s' = s) xs ys \<Longrightarrow>
   list_all2 sameExceptPitch xs ys"
  by (erule list_all2_mono) (simp add: sameExceptPitch_def split: if_splits)

lemma all2_map_pitch:
  "list_all2 sameExceptPitch xs (map (\<lambda>s. s\<lparr>pitch := f s\<rparr>) xs)"
  by (simp add: list_all2_map2 sameExceptPitch_def list_all2_same)

lemma all2_refl_same: "list_all2 sameExceptPitch xs xs"
  by (simp add: sameExceptPitch_def list_all2_same)


lemma exampleTrunk_wf: "seqLength exampleTrunk \<le> length (steps exampleTrunk)"
  by (simp add: exampleTrunk_def)

lemma exampleTrunk_steps:
  "steps exampleTrunk = [gatedStep 0, createDefaultStep\<lparr>pitch := 5\<rparr>, gatedStep 9, gatedStep 12]"
  by (simp add: exampleTrunk_def)

lemma exampleTrunk_integer: "list_all (\<lambda>s. integerPitch (pitch s)) (steps exampleTrunk)"
  by (simp add: exampleTrunk_def gatedStep_def createDefaultStep_def integerPitch_def)

lemma exampleTrunk_inverted:
  "map pitch (steps (invertSequence exampleTrunk)) = [12, 7, 3, 0]"
proof -
  have ne: "steps exampleTrunk \<noteq> []"
    by (simp add: exampleTrunk_def)
  have mm: "Max (pitch ` set (steps exampleTrunk)) = 12" "Min (pitch ` set (steps exampleTrunk)) = 0"
    by (simp_all add: exampleTrunk_def gatedStep_def createDefaultStep_def)
  have "steps (invertSequence exampleTrunk) =
          map (\<lambda>s. s\<lparr>pitch := 12 - (pitch s - 0)\<rparr>) (steps exampleTrunk)"
    using invertSequence_exact(1) [OF ne exampleTrunk_integer] unfolding mm by simp
  then show ?thesis
    by (simp add: exampleTrunk_def gatedStep_def createDefaultStep_def)
qed

text \<open>
  Claim C5, amended.  For a sequence whose stored pitches are integers of absolute value
  at most \<open>2 ^ 51\<close>, inverting twice gives back the pitch of every step below \<open>length\<close>
  (and the whole sequence, \<open>invertSequence_twice\<close>): on such pitches the subtractions of
  \<open>invertSequence\<close> are exact.
\<close>

theorem invert_involution:
  assumes "list_all (\<lambda>s. integerPitch (pitch s)) (steps seq)"
    and "i < seqLength seq" and "i < length (steps seq)"
  shows "pitch (steps (invertSequence (invertSequence seq)) ! i) = pitch (steps seq ! i)"
proof -
  have "steps (invertSequence (invertSequence seq)) = steps seq"
    using assms(1) by (simp only: invertSequence_twice)
  then show ?thesis
    by (rule arg_cong [where f = "\<lambda>xs. pitch (xs ! i)"])
qed

theorem invert_involution_witness:
  "list_all (\<lambda>s. integerPitch (pitch s)) (steps exampleTrunk) \<and>
   (1::nat) < seqLength exampleTrunk \<and> 1 < length (steps exampleTrunk) \<and>
   pitch (steps (invertSequence exampleTrunk) ! 1) = 7 \<and>
   pitch (steps (invertSequence (invertSequence exampleTrunk)) ! 1) = 5"
proof -
  have a: "1 < seqLength exampleTrunk" and b: "1 < length (steps exampleTrunk)"
    by (simp_all add: exampleTrunk_def)
  have "map pitch (steps (invertSequence exampleTrunk)) ! 1 = 7"
    by (simp only: exampleTrunk_inverted) simp
  moreover have "length (steps (invertSequence exampleTrunk)) = 4"
    using arg_cong [OF exampleTrunk_inverted, of length] by simp
  ultimately have c: "pitch (steps (invertSequence exampleTrunk) ! 1) = 7"
    by simp
  have d: "pitch (steps exampleTrunk ! 1) = 5"
    by (simp add: exampleTrunk_def gatedStep_def createDefaultStep_def)
  show ?thesis
    using a b c d exampleTrunk_integer invert_involution [OF exampleTrunk_integer a b] by simp
qed

text \<open>
  The double operations on the way from \<open>exampleTrunk\<close> to \<open>mutatedTrunk\<close> and through
  its two inversions, each with the exponent and the 53-bit integer of its result.
\<close>

lemma double_op_1:
  "fmul (5404319552844595 / 18014398509481984) (2) = 5404319552844595 / 9007199254740992"
  unfolding fmul_def
  by (rule roundDouble_nearI [where e = "- 1" and m = "5404319552844595"]) simp_all

lemma double_op_2:
  "fadd (5404319552844595 / 9007199254740992) (1) = 3602879701896397 / 2251799813685248"
  unfolding fadd_def
  by (rule roundDouble_tieI [where e = "0" and m = "7205759403792794"]) simp_all

lemma double_op_3:
  "fmul (0) (3602879701896397 / 2251799813685248) = 0"
  by (simp add: fmul_def roundDouble_zero)

lemma double_op_4:
  "fsub (0) (5404319552844595 / 18014398509481984) = - 5404319552844595 / 18014398509481984"
  unfolding fsub_def
  by (rule roundDouble_nearI [where e = "- 2" and m = "- 5404319552844595"]) simp_all

lemma double_op_5:
  "fadd (0) (- 5404319552844595 / 18014398509481984) = - 5404319552844595 / 18014398509481984"
  unfolding fadd_def
  by (rule roundDouble_nearI [where e = "- 2" and m = "- 5404319552844595"]) simp_all

lemma double_op_6:
  "fmul (3 / 4) (3602879701896397 / 2251799813685248) = 1351079888211149 / 1125899906842624"
  unfolding fmul_def
  by (rule roundDouble_tieI [where e = "0" and m = "5404319552844596"]) simp_all

lemma double_op_7:
  "fsub (1) (5404319552844595 / 18014398509481984) = 3152519739159347 / 4503599627370496"
  unfolding fsub_def
  by (rule roundDouble_tieI [where e = "- 1" and m = "6305039478318694"]) simp_all

lemma double_op_8:
  "fadd (9) (3152519739159347 / 4503599627370496) = 2730307274093363 / 281474976710656"
  unfolding fadd_def
  by (rule roundDouble_nearI [where e = "3" and m = "5460614548186726"]) simp_all

lemma double_op_9:
  "fadd (12) (3152519739159347 / 4503599627370496) = 3574732204225331 / 281474976710656"
  unfolding fadd_def
  by (rule roundDouble_nearI [where e = "3" and m = "7149464408450662"]) simp_all

lemma double_op_10:
  "fsub (- 5404319552844595 / 18014398509481984) (- 5404319552844595 / 18014398509481984) = 0"
  by (simp add: fsub_def roundDouble_zero)

lemma double_op_11:
  "fsub (3574732204225331 / 281474976710656) (0) = 3574732204225331 / 281474976710656"
  unfolding fsub_def
  by (rule roundDouble_nearI [where e = "3" and m = "7149464408450662"]) simp_all

lemma double_op_12:
  "fsub (5) (- 5404319552844595 / 18014398509481984) = 5967269506265907 / 1125899906842624"
  unfolding fsub_def
  by (rule roundDouble_nearI [where e = "2" and m = "5967269506265907"]) simp_all

lemma double_op_13:
  "fsub (3574732204225331 / 281474976710656) (5967269506265907 / 1125899906842624) = 8331659310635417 / 1125899906842624"
  unfolding fsub_def
  by (rule roundDouble_nearI [where e = "2" and m = "8331659310635417"]) simp_all

lemma double_op_14:
  "fsub (2730307274093363 / 281474976710656) (- 5404319552844595 / 18014398509481984) = 10"
  unfolding fsub_def
  by (rule roundDouble_nearI [where e = "3" and m = "5629499534213120"]) simp_all

lemma double_op_15:
  "fsub (3574732204225331 / 281474976710656) (10) = 759982437118771 / 281474976710656"
  unfolding fsub_def
  by (rule roundDouble_nearI [where e = "1" and m = "6079859496950168"]) simp_all

lemma double_op_16:
  "fsub (3574732204225331 / 281474976710656) (- 5404319552844595 / 18014398509481984) = 13"
  unfolding fsub_def
  by (rule roundDouble_nearI [where e = "3" and m = "7318349394477056"]) simp_all

lemma double_op_17:
  "fsub (3574732204225331 / 281474976710656) (13) = - 84442493013197 / 281474976710656"
  unfolding fsub_def
  by (rule roundDouble_nearI [where e = "- 2" and m = "- 5404319552844608"]) simp_all

lemma double_op_18:
  "fsub (3574732204225331 / 281474976710656) (- 84442493013197 / 281474976710656) = 13"
  unfolding fsub_def
  by (rule roundDouble_nearI [where e = "3" and m = "7318349394477056"]) simp_all

lemma double_op_19:
  "fsub (8331659310635417 / 1125899906842624) (- 84442493013197 / 281474976710656) = 8669429282688205 / 1125899906842624"
  unfolding fsub_def
  by (rule roundDouble_nearI [where e = "2" and m = "8669429282688205"]) simp_all

lemma double_op_20:
  "fsub (3574732204225331 / 281474976710656) (8669429282688205 / 1125899906842624) = 5629499534213119 / 1125899906842624"
  unfolding fsub_def
  by (rule roundDouble_nearI [where e = "2" and m = "5629499534213119"]) simp_all

lemma double_op_21:
  "fsub (759982437118771 / 281474976710656) (- 84442493013197 / 281474976710656) = 3"
  unfolding fsub_def
  by (rule roundDouble_nearI [where e = "1" and m = "6755399441055744"]) simp_all

lemma double_op_22:
  "fsub (3574732204225331 / 281474976710656) (3) = 2730307274093363 / 281474976710656"
  unfolding fsub_def
  by (rule roundDouble_nearI [where e = "3" and m = "5460614548186726"]) simp_all

lemma double_op_23:
  "fsub (- 84442493013197 / 281474976710656) (- 84442493013197 / 281474976710656) = 0"
  by (simp add: fsub_def roundDouble_zero)

lemmas double_ops = double_op_1 double_op_2 double_op_3 double_op_4 double_op_5 double_op_6 double_op_7 double_op_8 double_op_9 double_op_10 double_op_11 double_op_12 double_op_13 double_op_14 double_op_15 double_op_16 double_op_17 double_op_18 double_op_19 double_op_20 double_op_21 double_op_22 double_op_23

lemma gatedStep_simps:
  "pitch (gatedStep p) = p" "gateOn (gatedStep p) = True"
  "(gatedStep p)\<lparr>pitch := q\<rparr> = gatedStep q"
  "pitch (createDefaultStep\<lparr>pitch := p\<rparr>) = p" "gateOn (createDefaultStep\<lparr>pitch := p\<rparr>) = False"
  "(createDefaultStep\<lparr>pitch := p\<rparr>)\<lparr>pitch := q\<rparr> = createDefaultStep\<lparr>pitch := q\<rparr>"
  by (simp_all add: gatedStep_def createDefaultStep_def)

lemma mutatedTrunk_steps:
  "steps mutatedTrunk =
     [gatedStep (- 5404319552844595 / 18014398509481984), createDefaultStep\<lparr>pitch := 5\<rparr>,
      gatedStep (2730307274093363 / 281474976710656),
      gatedStep (3574732204225331 / 281474976710656)]"
  by (simp add: mutatedTrunk_def)

lemma mutatedTrunk_reached:
  "fst (mutateSequence mutationSource exampleTrunk (roundDouble (3 / 10)) 0) = mutatedTrunk"
proof -
  have r: "roundDouble (3 / 10) = 5404319552844595 / 18014398509481984"
    by (rule roundDouble_nearI [where e = "- 2" and m = 5404319552844595]) simp_all
  have r0: "(5404319552844595 / 18014398509481984 :: rat) \<noteq> 0"
    by simp
  have rnd: "Math_random mutationSource 0 = 0" "Math_random mutationSource (Suc 0) = 3 / 4"
    "Math_random mutationSource (Suc (Suc 0)) = 3 / 4"
    by (simp_all add: Math_random_def mutationSource_def)
  have fl: "Math_floor 0 = 0" "Math_floor (1351079888211149 / 1125899906842624) = 1"
    by (simp_all add: Math_floor_def floor_eq_iff)
  have "fst (mutate_loop mutationSource (5404319552844595 / 18014398509481984)
               [gatedStep 0, createDefaultStep\<lparr>pitch := 5\<rparr>, gatedStep 9, gatedStep 12] 0) =
          [gatedStep (- 5404319552844595 / 18014398509481984), createDefaultStep\<lparr>pitch := 5\<rparr>,
           gatedStep (2730307274093363 / 281474976710656),
           gatedStep (3574732204225331 / 281474976710656)]"
    by (simp only: mutate_loop.simps gatedStep_simps if_True if_False Let_def rnd fl double_ops
        of_int_0 of_int_1 prod.case fst_conv)
  then show ?thesis
    unfolding r mutateSequence_steps exampleTrunk_steps
    by (simp only: r0 if_False fst_conv) (simp add: mutatedTrunk_def exampleTrunk_def)
qed

lemma mutatedTrunk_inverted:
  "invertSequence mutatedTrunk = mutatedTrunk\<lparr>steps :=
     [gatedStep (3574732204225331 / 281474976710656),
      createDefaultStep\<lparr>pitch := 8331659310635417 / 1125899906842624\<rparr>,
      gatedStep (759982437118771 / 281474976710656),
      gatedStep (- 84442493013197 / 281474976710656)]\<rparr>"
proof -
  have ne: "steps mutatedTrunk \<noteq> []"
    by (simp add: mutatedTrunk_def)
  have mm: "Max (pitch ` set (steps mutatedTrunk)) = 3574732204225331 / 281474976710656"
    "Min (pitch ` set (steps mutatedTrunk)) = - 5404319552844595 / 18014398509481984"
    by (simp_all add: mutatedTrunk_def gatedStep_def createDefaultStep_def)
  show ?thesis
    unfolding invertSequence_steps [OF ne] mm
    by (simp only: mutatedTrunk_steps list.map gatedStep_simps double_ops)
qed

lemma mutatedTrunk_inverted_twice:
  "invertSequence (invertSequence mutatedTrunk) = mutatedTrunk\<lparr>steps :=
     [gatedStep (- 84442493013197 / 281474976710656),
      createDefaultStep\<lparr>pitch := 5629499534213119 / 1125899906842624\<rparr>,
      gatedStep (2730307274093363 / 281474976710656),
      gatedStep (3574732204225331 / 281474976710656)]\<rparr>"
proof -
  let ?inv = "mutatedTrunk\<lparr>steps :=
     [gatedStep (3574732204225331 / 281474976710656),
      createDefaultStep\<lparr>pitch := 8331659310635417 / 1125899906842624\<rparr>,
      gatedStep (759982437118771 / 281474976710656),
      gatedStep (- 84442493013197 / 281474976710656)]\<rparr>"
  have st: "steps ?inv =
     [gatedStep (3574732204225331 / 281474976710656),
      createDefaultStep\<lparr>pitch := 8331659310635417 / 1125899906842624\<rparr>,
      gatedStep (759982437118771 / 281474976710656),
      gatedStep (- 84442493013197 / 281474976710656)]"
    by simp
  have ne: "steps ?inv \<noteq> []"
    by simp
  have mm: "Max (pitch ` set (steps ?inv)) = 3574732204225331 / 281474976710656"
    "Min (pitch ` set (steps ?inv)) = - 84442493013197 / 281474976710656"
    by (simp_all add: gatedStep_def createDefaultStep_def)
  have "invertSequence ?inv = ?inv\<lparr>steps :=
     [gatedStep (- 84442493013197 / 281474976710656),
      createDefaultStep\<lparr>pitch := 5629499534213119 / 1125899906842624\<rparr>,
      gatedStep (2730307274093363 / 281474976710656),
      gatedStep (3574732204225331 / 281474976710656)]\<rparr>"
    unfolding invertSequence_steps [OF ne] mm
    by (simp only: st list.map gatedStep_simps double_ops)
  then show ?thesis
    by (simp add: mutatedTrunk_inverted)
qed

text \<open>
  With pitches that are not integers the subtractions round.  \<open>mutatedTrunk\<close> is
  \<open>exampleTrunk\<close> after a mutation by the range \<open>0.3\<close>.  Its active step 1 has pitch 5;
  after two inversions the pitch is \<open>5629499534213119 / 2 ^ 50\<close>, the double
  \<open>4.999999999999999\<close>.
\<close>

theorem invert_involution_counterexample:
  "fst (mutateSequence mutationSource exampleTrunk (roundDouble (3 / 10)) 0) = mutatedTrunk \<and>
   (1::nat) < seqLength mutatedTrunk \<and> 1 < length (steps mutatedTrunk) \<and>
   pitch (steps mutatedTrunk ! 1) = 5 \<and>
   pitch (steps (invertSequence (invertSequence mutatedTrunk)) ! 1)
     = 5629499534213119 / 1125899906842624 \<and>
   pitch (steps (invertSequence (invertSequence mutatedTrunk)) ! 1) \<noteq> pitch (steps mutatedTrunk ! 1)"
proof -
  have a: "(1::nat) < seqLength mutatedTrunk \<and> 1 < length (steps mutatedTrunk) \<and>
           pitch (steps mutatedTrunk ! 1) = 5"
    by (simp add: mutatedTrunk_def exampleTrunk_def)
  have b: "pitch (steps (invertSequence (invertSequence mutatedTrunk)) ! 1)
             = 5629499534213119 / 1125899906842624"
    by (simp add: mutatedTrunk_inverted_twice)
  from a b mutatedTrunk_reached show ?thesis
    by simp
qed

text \<open>
  Claim C10.  Transpose, invert, mutate and reverse return a sequence with the same
  \<open>length\<close>, \<open>scale\<close>, \<open>playbackOrder\<close> and number of stored steps.  The first three
  change no field of a step other than \<open>pitch\<close>; reverse returns the stored steps
  themselves, the active prefix in reverse order.  For reverse the sequence is one whose
  \<open>length\<close> does not exceed the number of stored steps, as the data model requires.
\<close>

theorem modifications_preserve_frame:
  "sameFrame seq (transposeSequence seq n) \<and>
   list_all2 sameExceptPitch (steps seq) (steps (transposeSequence seq n)) \<and>
   sameFrame seq (invertSequence seq) \<and>
   list_all2 sameExceptPitch (steps seq) (steps (invertSequence seq)) \<and>
   sameFrame seq (fst (mutateSequence src seq r k)) \<and>
   list_all2 sameExceptPitch (steps seq) (steps (fst (mutateSequence src seq r k))) \<and>
   (seqLength seq \<le> length (steps seq) \<longrightarrow>
      (\<exists>seq'. reverseSequence seq = Inr seq' \<and> sameFrame seq seq' \<and>
         steps seq' = rev (take (seqLength seq) (steps seq)) @ drop (seqLength seq) (steps seq)))"
proof -
  have t1: "sameFrame seq (transposeSequence seq n)"
    by (simp add: transposeSequence_steps sameFrame_def)
  have t2: "list_all2 sameExceptPitch (steps seq) (steps (transposeSequence seq n))"
    by (simp add: transposeSequence_steps all2_map_pitch)
  have i1: "sameFrame seq (invertSequence seq)"
    by (cases "steps seq = []") (simp_all add: invertSequence_empty invertSequence_steps sameFrame_def)
  have i2: "list_all2 sameExceptPitch (steps seq) (steps (invertSequence seq))"
    by (cases "steps seq = []")
      (simp_all add: invertSequence_empty invertSequence_steps all2_map_pitch all2_refl_same)
  have m2: "list_all2 sameExceptPitch (steps seq) (steps (fst (mutateSequence src seq r k)))"
    using all2_weaken_mutate [OF mutate_loop_all2 [of "steps seq" src r k]]
    by (simp add: mutateSequence_steps all2_refl_same)
  have m1: "sameFrame seq (fst (mutateSequence src seq r k))"
    using list_all2_lengthD [OF m2] by (simp add: mutateSequence_steps sameFrame_def)
  have r1: "\<exists>seq'. reverseSequence seq = Inr seq' \<and> sameFrame seq seq' \<and>
         steps seq' = rev (take (seqLength seq) (steps seq)) @ drop (seqLength seq) (steps seq)"
    if wf: "seqLength seq \<le> length (steps seq)"
    using wf by (simp add: reverseSequence_Inr [OF wf] sameFrame_def)
  from t1 t2 i1 i2 m1 m2 r1 show ?thesis
    by blast
qed

theorem modifications_preserve_frame_witness:
  "seqLength exampleTrunk \<le> length (steps exampleTrunk) \<and>
   (\<exists>seq'. reverseSequence exampleTrunk = Inr seq' \<and> sameFrame exampleTrunk seq' \<and>
      map pitch (steps seq') = [9, 5, 0, 12])"
proof -
  obtain seq' where r: "reverseSequence exampleTrunk = Inr seq'" "sameFrame exampleTrunk seq'"
    "steps seq' = rev (take (seqLength exampleTrunk) (steps exampleTrunk))
       @ drop (seqLength exampleTrunk) (steps exampleTrunk)"
    using exampleTrunk_wf modifications_preserve_frame [of exampleTrunk 0 zeroSource 0 0]
    by blast
  have "map pitch (steps seq') = [9, 5, 0, 12]"
    by (simp add: r(3)) (simp add: exampleTrunk_def gatedStep_def createDefaultStep_def)
  with r(1,2) exampleTrunk_wf show ?thesis
    by simp
qed




section \<open>The generated tree\<close>

lemma invertSequence_frame:
  "seqLength (invertSequence seq) = seqLength seq \<and>
   length (steps (invertSequence seq)) = length (steps seq)"
  by (cases "steps seq = []") (simp_all add: invertSequence_empty invertSequence_steps)

lemma mutateSequence_frame:
  "seqLength (fst (mutateSequence src seq r k)) = seqLength seq \<and>
   length (steps (fst (mutateSequence src seq r k))) = length (steps seq)"
  using list_all2_lengthD [OF mutate_loop_all2 [of "steps seq" src r k]]
  by (simp add: mutateSequence_steps)

lemma applyModification_frame:
  assumes "applyModification src kind param seq k = Inr (seq', k')"
  shows "seqLength seq' = seqLength seq \<and> length (steps seq') = length (steps seq)"
proof (cases kind)
  case Transpose
  with assms show ?thesis
    by (auto simp: applyModification_def transposeSequence_steps)
next
  case Invert
  with assms invertSequence_frame [of seq] show ?thesis
    by (auto simp: applyModification_def)
next
  case Reverse
  show ?thesis
  proof (cases "seqLength seq \<le> length (steps seq)")
    case True
    with assms Reverse show ?thesis
      by (auto simp: applyModification_def reverseSequence_Inr)
  next
    case False
    with assms Reverse show ?thesis
      by (simp add: applyModification_def reverseSequence_Inl)
  qed
next
  case Mutate
  with assms mutateSequence_frame [of src seq "or_default param (roundDouble (3 / 10))" k] show ?thesis
    by (auto simp: applyModification_def)
qed

lemma applyModification_total:
  assumes "seqLength seq \<le> length (steps seq)"
  shows "\<exists>seq' k'. applyModification src kind param seq k = Inr (seq', k')"
  using assms
  by (cases kind) (simp_all add: applyModification_def reverseSequence_Inr prod_eq_iff)

lemma buildChildren_leaf:
  assumes "md \<le> depth node"
  shows "buildChildren src pattern md node k = Inr (node, k)"
  using assms by (subst buildChildren.simps) simp

lemma buildChildren_inner:
  assumes "depth node < md"
  shows "buildChildren src pattern md node k =
     (case applyModification src (leftKind (configAt pattern (depth node)))
             (leftParam (configAt pattern (depth node))) (sequence node) k of
        Inl e \<Rightarrow> Inl e
      | Inr (leftSeq, k1) \<Rightarrow>
          (case applyModification src (rightKind (configAt pattern (depth node)))
                  (rightParam (configAt pattern (depth node))) (sequence node) k1 of
             Inl e \<Rightarrow> Inl e
           | Inr (rightSeq, k2) \<Rightarrow>
               (case buildChildren src pattern md
                       (TreeNode leftSeq (Suc (depth node))
                          (Some (leftKind (configAt pattern (depth node)))) None None) k2 of
                  Inl e \<Rightarrow> Inl e
                | Inr (leftNode, k3) \<Rightarrow>
                    (case buildChildren src pattern md
                            (TreeNode rightSeq (Suc (depth node))
                               (Some (rightKind (configAt pattern (depth node)))) None None) k3 of
                       Inl e \<Rightarrow> Inl e
                     | Inr (rightNode, k4) \<Rightarrow>
                         Inr (TreeNode (sequence node) (depth node) (modificationFromParent node)
                                (Some leftNode) (Some rightNode), k4)))))"
  using assms
  by (subst buildChildren.simps)
    (simp add: Let_def configAt_def cong: sum.case_cong prod.case_cong)

lemma buildChildren_shape:
  assumes "buildChildren src pattern md node k = Inr (node', k')"
    and "left node = None" and "right node = None"
  shows "completeFrom md (depth node) node' \<and>
         nodeCount node' = 2 ^ (md - depth node + 1) - 1 \<and>
         uniformTree (seqLength (sequence node)) (length (steps (sequence node))) node'"
  using assms
proof (induction "md - depth node" arbitrary: node k node' k')
  case 0
  then have "md \<le> depth node" by simp
  then have "node' = node"
    using "0.prems"(1) by (simp add: buildChildren_leaf)
  with "0.prems"(2,3) \<open>md \<le> depth node\<close> show ?case
    by (cases node) simp
next
  case (Suc m)
  then have lt: "depth node < md" by simp
  let ?c = "configAt pattern (depth node)"
  from Suc.prems(1) obtain leftSeq k1 rightSeq k2 leftNode k3 rightNode where
    l: "applyModification src (leftKind ?c) (leftParam ?c) (sequence node) k = Inr (leftSeq, k1)" and
    r: "applyModification src (rightKind ?c) (rightParam ?c) (sequence node) k1 = Inr (rightSeq, k2)" and
    bl: "buildChildren src pattern md (TreeNode leftSeq (Suc (depth node)) (Some (leftKind ?c)) None None) k2
           = Inr (leftNode, k3)" and
    br: "buildChildren src pattern md (TreeNode rightSeq (Suc (depth node)) (Some (rightKind ?c)) None None) k3
           = Inr (rightNode, k')" and
    res: "node' = TreeNode (sequence node) (depth node) (modificationFromParent node)
                    (Some leftNode) (Some rightNode)"
    unfolding buildChildren_inner [OF lt]
    by (auto split: sum.splits prod.splits)
  have m: "m = md - depth (TreeNode leftSeq (Suc (depth node)) (Some (leftKind ?c)) None None)"
          "m = md - depth (TreeNode rightSeq (Suc (depth node)) (Some (rightKind ?c)) None None)"
    using Suc.hyps(2) by simp_all
  have L: "completeFrom md (Suc (depth node)) leftNode"
          "nodeCount leftNode = 2 ^ (md - Suc (depth node) + 1) - 1"
          "uniformTree (seqLength leftSeq) (length (steps leftSeq)) leftNode"
    using Suc.hyps(1) [OF m(1) bl] by simp_all
  have R: "completeFrom md (Suc (depth node)) rightNode"
          "nodeCount rightNode = 2 ^ (md - Suc (depth node) + 1) - 1"
          "uniformTree (seqLength rightSeq) (length (steps rightSeq)) rightNode"
    using Suc.hyps(1) [OF m(2) br] by simp_all
  have e: "md - depth node = Suc (md - Suc (depth node))"
    using lt by simp
  have cnt: "nodeCount node' = 2 ^ (md - depth node + 1) - 1"
    by (simp add: res L(2) R(2) e)
  show ?case
    using lt L(1,3) R(1,3) cnt applyModification_frame [OF l] applyModification_frame [OF r]
    by (simp add: res)
qed

lemma buildChildren_total:
  assumes "seqLength (sequence node) \<le> length (steps (sequence node))"
  shows "\<exists>node' k'. buildChildren src pattern md node k = Inr (node', k')"
  using assms
proof (induction "md - depth node" arbitrary: node k)
  case 0
  then show ?case by (simp add: buildChildren_leaf)
next
  case (Suc m)
  then have lt: "depth node < md" by simp
  let ?c = "configAt pattern (depth node)"
  obtain leftSeq k1 where
    l: "applyModification src (leftKind ?c) (leftParam ?c) (sequence node) k = Inr (leftSeq, k1)"
    using applyModification_total [OF Suc.prems] by blast
  obtain rightSeq k2 where
    r: "applyModification src (rightKind ?c) (rightParam ?c) (sequence node) k1 = Inr (rightSeq, k2)"
    using applyModification_total [OF Suc.prems] by blast
  have wl: "seqLength leftSeq \<le> length (steps leftSeq)"
    using applyModification_frame [OF l] Suc.prems by simp
  have wr: "seqLength rightSeq \<le> length (steps rightSeq)"
    using applyModification_frame [OF r] Suc.prems by simp
  have m: "m = md - depth (TreeNode leftSeq (Suc (depth node)) (Some (leftKind ?c)) None None)"
          "m = md - depth (TreeNode rightSeq (Suc (depth node)) (Some (rightKind ?c)) None None)"
    using Suc.hyps(2) by simp_all
  obtain leftNode k3 where
    bl: "buildChildren src pattern md (TreeNode leftSeq (Suc (depth node)) (Some (leftKind ?c)) None None) k2
           = Inr (leftNode, k3)"
    using Suc.hyps(1) [OF m(1), of k2] wl by auto
  obtain rightNode k4 where
    br: "buildChildren src pattern md (TreeNode rightSeq (Suc (depth node)) (Some (rightKind ?c)) None None) k3
           = Inr (rightNode, k4)"
    using Suc.hyps(1) [OF m(2), of k3] wr by auto
  show ?case
    by (simp add: buildChildren_inner [OF lt] l r bl br)
qed


lemma generateTreeForChannel_shape:
  assumes "generateTreeForChannel src channel k = Inr (tree, k')"
    and "pattern = patterns channel ! currentPatternIndex channel"
  shows "maxDepth tree = branchesCount pattern \<and>
         completeFrom (branchesCount pattern) 0 (root tree) \<and>
         nodeCount (root tree) = 2 ^ (branchesCount pattern + 1) - 1 \<and>
         uniformTree (seqLength (trunk pattern)) (length (steps (trunk pattern))) (root tree) \<and>
         (branchesCount pattern = 0 \<longrightarrow> root tree = TreeNode (trunk pattern) 0 None None None)"
proof (cases "branchesCount pattern = 0")
  case True
  with assms have "tree = \<lparr>root = TreeNode (trunk pattern) 0 None None None, maxDepth = 0\<rparr>"
    by (auto simp: generateTreeForChannel_def Let_def split: if_splits)
  with True show ?thesis by simp
next
  case False
  with assms obtain root' where
    b: "buildChildren src pattern (branchesCount pattern) (TreeNode (trunk pattern) 0 None None None) k
          = Inr (root', k')" and
    t: "tree = \<lparr>root = root', maxDepth = branchesCount pattern\<rparr>"
    by (auto simp: generateTreeForChannel_def Let_def split: if_splits sum.splits prod.splits)
  from buildChildren_shape [OF b] False show ?thesis
    by (simp add: t)
qed

lemma generateTreeForChannel_total:
  assumes "currentPatternIndex channel < length (patterns channel)"
    and "pattern = patterns channel ! currentPatternIndex channel"
    and "seqLength (trunk pattern) \<le> length (steps (trunk pattern))"
  shows "\<exists>tree k'. generateTreeForChannel src channel k = Inr (tree, k')"
proof -
  obtain root' k' where
    "buildChildren src pattern (branchesCount pattern) (TreeNode (trunk pattern) 0 None None None) k
       = Inr (root', k')"
    using buildChildren_total [of "TreeNode (trunk pattern) 0 None None None" src pattern
        "branchesCount pattern" k] assms(3)
    by auto
  then show ?thesis
    using assms(1,2) by (simp add: generateTreeForChannel_def Let_def)
qed

text \<open>
  Claim C7.  For a channel whose current pattern exists, with \<open>d = branchesCount\<close>: a
  tree that \<open>generateTreeForChannel\<close> returns has \<open>maxDepth = d\<close> and exactly
  \<open>2 ^ (d + 1) - 1\<close> nodes; every node at depth below \<open>d\<close> has two children and every
  node at depth \<open>d\<close> none; for \<open>d = 0\<close> it is the root alone, holding the trunk.  A tree
  is returned whenever the trunk's \<open>length\<close> does not exceed its number of stored
  steps, for every branch configuration.
\<close>

theorem tree_completeness:
  assumes "currentPatternIndex channel < length (patterns channel)"
    and "pattern = patterns channel ! currentPatternIndex channel"
  shows "(seqLength (trunk pattern) \<le> length (steps (trunk pattern)) \<longrightarrow>
           (\<exists>tree k'. generateTreeForChannel src channel k = Inr (tree, k'))) \<and>
         (\<forall>tree k'. generateTreeForChannel src channel k = Inr (tree, k') \<longrightarrow>
            maxDepth tree = branchesCount pattern \<and>
            nodeCount (root tree) = 2 ^ (branchesCount pattern + 1) - 1 \<and>
            completeFrom (branchesCount pattern) 0 (root tree) \<and>
            (branchesCount pattern = 0 \<longrightarrow> root tree = TreeNode (trunk pattern) 0 None None None))"
proof (intro conjI impI allI)
  assume "seqLength (trunk pattern) \<le> length (steps (trunk pattern))"
  with assms show "\<exists>tree k'. generateTreeForChannel src channel k = Inr (tree, k')"
    by (rule generateTreeForChannel_total)
next
  fix tree k'
  assume g: "generateTreeForChannel src channel k = Inr (tree, k')"
  note s = generateTreeForChannel_shape [OF g assms(2)]
  from s show "maxDepth tree = branchesCount pattern" by simp
  from s show "nodeCount (root tree) = 2 ^ (branchesCount pattern + 1) - 1" by simp
  from s show "completeFrom (branchesCount pattern) 0 (root tree)" by simp
  assume "branchesCount pattern = 0"
  with s show "root tree = TreeNode (trunk pattern) 0 None None None" by simp
qed

theorem tree_completeness_witness:
  "currentPatternIndex exampleChannel < length (patterns exampleChannel) \<and>
   seqLength (trunk examplePattern) \<le> length (steps (trunk examplePattern)) \<and>
   (\<exists>tree k'. generateTreeForChannel zeroSource exampleChannel 0 = Inr (tree, k') \<and>
      maxDepth tree = 2 \<and> nodeCount (root tree) = 7 \<and> completeFrom 2 0 (root tree))"
proof -
  have i: "currentPatternIndex exampleChannel < length (patterns exampleChannel)"
    and p: "examplePattern = patterns exampleChannel ! currentPatternIndex exampleChannel"
    by (simp_all add: exampleChannel_def)
  have w: "seqLength (trunk examplePattern) \<le> length (steps (trunk examplePattern))"
    by (simp add: examplePattern_def exampleTrunk_wf)
  have b: "branchesCount examplePattern = 2"
    by (simp add: examplePattern_def)
  note t = tree_completeness [OF i p, of zeroSource 0]
  obtain tree k' where g: "generateTreeForChannel zeroSource exampleChannel 0 = Inr (tree, k')"
    using t w by blast
  have "maxDepth tree = 2 \<and> nodeCount (root tree) = 7 \<and> completeFrom 2 0 (root tree)"
    using t g unfolding b by simp
  with i w g show ?thesis
    by simp
qed

section \<open>Length of the playback sequence\<close>

lemma uniformTree_node: "uniformTree L n node \<Longrightarrow> uniformNode L n node"
  by (cases node) (simp add: uniformNode_def)

lemma walk_complete:
  assumes "completeFrom d i node" and "uniformTree L n node"
  shows "\<exists>nodes. walk bits j (d - i) (Some node) acc = acc @ nodes \<and> length nodes = d - i \<and>
           list_all (uniformNode L n) nodes"
  using assms
proof (induction "d - i" arbitrary: node i j acc)
  case 0
  then show ?case by simp
next
  case (Suc m)
  then have lt: "i < d" by simp
  obtain s dep mo l r where node: "node = TreeNode s dep mo l r"
    by (cases node)
  from Suc.prems lt obtain a b where
    l: "l = Some a" and r: "r = Some b" and
    ca: "completeFrom d (Suc i) a" and cb: "completeFrom d (Suc i) b" and
    ua: "uniformTree L n a" and ub: "uniformTree L n b"
    by (auto simp: node split: option.splits)
  define next' where "next' = (if j < length bits \<and> bits ! j = CHR ''0'' then a else b)"
  have cn: "completeFrom d (Suc i) next'" and un: "uniformTree L n next'"
    using ca cb ua ub by (simp_all add: next'_def)
  have m: "m = d - Suc i"
    using Suc.hyps(2) by simp
  obtain nodes where
    w: "walk bits (Suc j) (d - Suc i) (Some next') (acc @ [next']) = (acc @ [next']) @ nodes" and
    len: "length nodes = d - Suc i" and al: "list_all (uniformNode L n) nodes"
    using Suc.hyps(1) [OF m cn un, of "Suc j" "acc @ [next']"] by blast
  have e: "d - i = Suc (d - Suc i)"
    using lt by simp
  have "walk bits j (Suc (d - Suc i)) (Some node) acc =
          walk bits (Suc j) (d - Suc i) (Some next') (acc @ [next'])"
    by (simp add: node l r next'_def)
  then have "walk bits j (d - i) (Some node) acc = acc @ (next' # nodes)"
    by (simp only: e w) simp
  moreover have "length (next' # nodes) = d - i"
    using len e by simp
  moreover have "list_all (uniformNode L n) (next' # nodes)"
    using al uniformTree_node [OF un] by simp
  ultimately show ?case
    by blast
qed

lemma length_pendulum_tail: "length (pendulum_tail xs i) = i"
  by (induction i) simp_all

lemma list_all_pendulum_tail:
  assumes "list_all P xs" and "i = 0 \<or> i < length xs - 1"
  shows "list_all P (pendulum_tail xs i)"
  using assms
proof (induction i)
  case 0
  then show ?case by simp
next
  case (Suc i)
  then have "Suc i < length xs" by simp
  with Suc.prems(1) have "P (xs ! Suc i)"
    by (simp add: list_all_length)
  moreover have "list_all P (pendulum_tail xs i)"
    using Suc.prems by (intro Suc.IH) simp_all
  ultimately show ?case by simp
qed

lemma shuffle_index:
  "nat (Math_floor (Math_random src k * (of_nat (Suc i) + 1))) < Suc (Suc i)"
  using random_index_below [of "Suc (Suc i)" src k] by (simp add: add.commute)

lemma length_shuffle_loop: "length (fst (shuffle_loop src i xs k)) = length xs"
  by (induction i arbitrary: xs k) (simp_all add: Let_def)

lemma list_all_shuffle_loop:
  assumes "list_all P xs" and "i = 0 \<or> i < length xs"
  shows "list_all P (fst (shuffle_loop src i xs k))"
  using assms
proof (induction i arbitrary: xs k)
  case 0
  then show ?case by simp
next
  case (Suc i)
  define j where "j = nat (Math_floor (Math_random src k * (of_nat (Suc i) + 1)))"
  have i: "Suc i < length xs" using Suc.prems(2) by simp
  have j: "j < length xs"
    using shuffle_index [of src k i] i by (simp add: j_def)
  have "list_all P (xs[Suc i := xs ! j, j := xs ! Suc i])"
    using Suc.prems(1) i j by (auto simp: list_all_length nth_list_update)
  then have "list_all P (fst (shuffle_loop src i (xs[Suc i := xs ! j, j := xs ! Suc i]) (Suc k)))"
    using i by (intro Suc.IH) simp_all
  then show ?case
    by (simp add: Let_def j_def)
qed

lemma length_nodeSteps:
  assumes "uniformNode L n node"
  shows "length (fst (nodeSteps src seqOrder node k)) =
           (if seqOrder = Pendulum \<and> 2 \<le> min L n then 2 * min L n - 2 else min L n)"
  using assms
  by (auto simp: nodeSteps_def uniformNode_def Let_def length_pendulum_tail length_shuffle_loop
      split_beta min_def)

lemma length_collectSteps:
  assumes "list_all (uniformNode L n) nodes"
  shows "length (fst (collectSteps src seqOrder nodes k)) =
           length nodes * (if seqOrder = Pendulum \<and> 2 \<le> min L n then 2 * min L n - 2 else min L n)"
  using assms
proof (induction nodes arbitrary: k)
  case Nil
  then show ?case by simp
next
  case (Cons node rest)
  have "length (fst (collectSteps src seqOrder (node # rest) k)) =
          length (fst (nodeSteps src seqOrder node k))
          + length (fst (collectSteps src seqOrder rest (snd (nodeSteps src seqOrder node k))))"
    by (simp add: split_beta)
  then show ?case
    using Cons.prems Cons.IH [of "snd (nodeSteps src seqOrder node k)"] length_nodeSteps [of L n node]
    by simp
qed


lemma length_orderNodes:
  "length (fst (orderNodes src branchOrder pathNodes k)) =
     (if branchOrder = BranchPendulum \<and> 2 \<le> length pathNodes
      then 2 * length pathNodes - 2 else length pathNodes)"
  by (auto simp: orderNodes_def length_pendulum_tail length_shuffle_loop)

lemma list_all_orderNodes:
  assumes "list_all P pathNodes"
  shows "list_all P (fst (orderNodes src branchOrder pathNodes k))"
proof -
  have "list_all P (pendulum_tail pathNodes (length pathNodes - 2))"
    using assms by (rule list_all_pendulum_tail) auto
  moreover have "list_all P (fst (shuffle_loop src (length pathNodes - 1) pathNodes k))"
    using assms by (rule list_all_shuffle_loop) auto
  ultimately show ?thesis
    using assms by (simp add: orderNodes_def)
qed

lemma selectPath_generated:
  assumes "completeFrom (branchesCount pattern) 0 (root tree)"
    and "uniformTree L n (root tree)"
  shows "length (selectPath pattern tree) = branchesCount pattern + 1 \<and>
         list_all (uniformNode L n) (selectPath pattern tree)"
proof -
  define bits where "bits = padStart (toString2 (Math_floor (getEffectivePathValue pattern *
      (2 ^ branchesCount pattern - 1 / 10000)))) (branchesCount pattern) CHR ''0''"
  obtain nodes where
    w: "walk bits 0 (branchesCount pattern - 0) (Some (root tree)) [root tree] = [root tree] @ nodes" and
    len: "length nodes = branchesCount pattern - 0" and al: "list_all (uniformNode L n) nodes"
    using walk_complete [OF assms, of bits 0 "[root tree]"] by blast
  have "selectPath pattern tree = root tree # nodes"
    using w by (simp add: selectPath_def Let_def bits_def)
  then show ?thesis
    using len al uniformTree_node [OF assms(2)] by simp
qed

lemma buildPlaybackSequence_Some:
  assumes "currentPatternIndex channel < length (patterns channel)"
    and "pattern = patterns channel ! currentPatternIndex channel"
    and "generatedTree channel = Some tree"
  shows "\<exists>ordered k1 sq k2.
           orderNodes src (branchPlaybackOrder pattern) (selectPath pattern tree) k = (ordered, k1) \<and>
           buildPlaybackSequence src channel k = Inr (sq, k2) \<and>
           steps sq = fst (collectSteps src (playbackOrder (trunk pattern)) ordered k1) \<and>
           seqLength sq = length (steps sq) \<and> scale sq = scale (trunk pattern) \<and>
           playbackOrder sq = Forward"
  using assms by (simp add: buildPlaybackSequence_def Let_def split_beta prod_eq_iff)

text \<open>
  Claim C1, amended.  Let the current pattern of a channel exist, let its trunk have a
  \<open>length\<close> that does not exceed its number of stored steps, and let the tree be the one
  that \<open>generateTreeForChannel\<close> built for the channel.  Then \<open>buildPlaybackSequence\<close>
  returns a sequence whose \<open>length\<close> is its number of steps and equals the number of
  played nodes times the number of steps played per node.  The number of played nodes is
  \<open>branchesCount + 1\<close>, except in pendulum branch order with \<open>branchesCount \<ge> 1\<close>, where
  it is \<open>2 * branchesCount\<close>.  The number of steps per node is the trunk's \<open>length\<close>,
  except in pendulum step order with \<open>length \<ge> 2\<close>, where it is \<open>2 * length - 2\<close>.  In
  particular the length is \<open>(branchesCount + 1) * length\<close> when neither order is
  pendulum, whatever the random draws.
\<close>

theorem flatten_length:
  assumes "currentPatternIndex channel < length (patterns channel)"
    and "pattern = patterns channel ! currentPatternIndex channel"
    and "seqLength (trunk pattern) \<le> length (steps (trunk pattern))"
    and "generateTreeForChannel src0 channel k0 = Inr (tree, k1)"
  shows "\<exists>sq k'. buildPlaybackSequence src (channel\<lparr>generatedTree := Some tree\<rparr>) k = Inr (sq, k') \<and>
           length (steps sq) = seqLength sq \<and>
           seqLength sq =
             (if branchPlaybackOrder pattern = BranchPendulum \<and> 1 \<le> branchesCount pattern
              then 2 * branchesCount pattern else branchesCount pattern + 1)
             * (if playbackOrder (trunk pattern) = Pendulum \<and> 2 \<le> seqLength (trunk pattern)
                then 2 * seqLength (trunk pattern) - 2 else seqLength (trunk pattern))"
proof -
  let ?L = "seqLength (trunk pattern)" and ?n = "length (steps (trunk pattern))"
  let ?ch = "channel\<lparr>generatedTree := Some tree\<rparr>"
  note shape = generateTreeForChannel_shape [OF assms(4,2)]
  have path: "length (selectPath pattern tree) = branchesCount pattern + 1"
    "list_all (uniformNode ?L ?n) (selectPath pattern tree)"
    using selectPath_generated [of pattern tree ?L ?n] shape by simp_all
  have "currentPatternIndex ?ch < length (patterns ?ch)"
    "pattern = patterns ?ch ! currentPatternIndex ?ch" "generatedTree ?ch = Some tree"
    using assms(1,2) by simp_all
  from buildPlaybackSequence_Some [OF this, of src k] obtain ordered k1' sq k2 where
    o: "orderNodes src (branchPlaybackOrder pattern) (selectPath pattern tree) k = (ordered, k1')" and
    b: "buildPlaybackSequence src ?ch k = Inr (sq, k2)" and
    st: "steps sq = fst (collectSteps src (playbackOrder (trunk pattern)) ordered k1')" and
    sl: "seqLength sq = length (steps sq)"
    by blast
  have ordered: "ordered = fst (orderNodes src (branchPlaybackOrder pattern) (selectPath pattern tree) k)"
    by (simp add: o)
  have ol: "length ordered =
      (if branchPlaybackOrder pattern = BranchPendulum \<and> 1 \<le> branchesCount pattern
       then 2 * branchesCount pattern else branchesCount pattern + 1)"
    unfolding ordered length_orderNodes path(1) by simp
  have oa: "list_all (uniformNode ?L ?n) ordered"
    unfolding ordered using path(2) by (rule list_all_orderNodes)
  have m: "min ?L ?n = ?L"
    using assms(3) by simp
  have "length (steps sq) = length ordered *
      (if playbackOrder (trunk pattern) = Pendulum \<and> 2 \<le> ?L then 2 * ?L - 2 else ?L)"
    using length_collectSteps [OF oa, of src "playbackOrder (trunk pattern)" k1'] m
    by (simp only: st)
  with b sl ol show ?thesis
    by simp
qed


theorem flatten_length_witness:
  "currentPatternIndex exampleChannel < length (patterns exampleChannel) \<and>
   seqLength (trunk examplePattern) \<le> length (steps (trunk examplePattern)) \<and>
   (\<exists>tree k1. generateTreeForChannel zeroSource exampleChannel 0 = Inr (tree, k1) \<and>
      (\<exists>sq k'. buildPlaybackSequence zeroSource (exampleChannel\<lparr>generatedTree := Some tree\<rparr>) k1
                  = Inr (sq, k') \<and>
               length (steps sq) = 9 \<and> seqLength sq = 9))"
proof -
  have i: "currentPatternIndex exampleChannel < length (patterns exampleChannel)"
    and p: "examplePattern = patterns exampleChannel ! currentPatternIndex exampleChannel"
    by (simp_all add: exampleChannel_def)
  have w: "seqLength (trunk examplePattern) \<le> length (steps (trunk examplePattern))"
    by (simp add: examplePattern_def exampleTrunk_wf)
  obtain tree k1 where g: "generateTreeForChannel zeroSource exampleChannel 0 = Inr (tree, k1)"
    using generateTreeForChannel_total [OF i p w] by blast
  have v: "branchPlaybackOrder examplePattern = BranchForward" "branchesCount examplePattern = 2"
    "playbackOrder (trunk examplePattern) = Forward" "seqLength (trunk examplePattern) = 3"
    by (simp_all add: examplePattern_def exampleTrunk_def)
  obtain sq k' where
    "buildPlaybackSequence zeroSource (exampleChannel\<lparr>generatedTree := Some tree\<rparr>) k1 = Inr (sq, k')"
    "length (steps sq) = seqLength sq" "seqLength sq = 9"
    using flatten_length [OF i p w g, of zeroSource k1] unfolding v by auto
  with i w g show ?thesis
    by simp
qed

text \<open>
  A trunk with three active steps in pendulum order and no branches is played as the
  steps 0, 1, 2, 1: four steps, not \<open>(0 + 1) * 3\<close>.
\<close>

theorem flatten_length_counterexample:
  "generateTreeForChannel zeroSource pendulumChannel 0 = Inr (pendulumTree, 0) \<and>
   map_sum id (\<lambda>(sq, k). (seqLength sq, map originalIndex (steps sq)))
     (buildPlaybackSequence zeroSource (pendulumChannel\<lparr>generatedTree := Some pendulumTree\<rparr>) 0)
     = Inr (4, [Some 0, Some 1, Some 2, Some 1]) \<and>
   (branchesCount pendulumPattern + 1) * seqLength (trunk pendulumPattern) = 3"
proof -
  have g: "generateTreeForChannel zeroSource pendulumChannel 0 = Inr (pendulumTree, 0)"
    by (simp add: generateTreeForChannel_def pendulumChannel_def exampleChannel_def
        pendulumPattern_def examplePattern_def pendulumTree_def)
  have path: "selectPath pendulumPattern pendulumTree = [root pendulumTree]"
    by (simp add: selectPath_def pendulumPattern_def examplePattern_def)
  have ns: "nodeSteps zeroSource Pendulum (root pendulumTree) 0 =
      (map (\<lambda>(i, s). s\<lparr>originalIndex := Some i, stepDepth := Some 0\<rparr>)
         [(0, gatedStep 0), (1, createDefaultStep\<lparr>pitch := 5\<rparr>), (2, gatedStep 9),
          (1, createDefaultStep\<lparr>pitch := 5\<rparr>)], 0)"
    by (simp add: nodeSteps_def pendulumTree_def exampleTrunk_def eval_nat_numeral)
  have b: "map_sum id (\<lambda>(sq, k). (seqLength sq, map originalIndex (steps sq)))
     (buildPlaybackSequence zeroSource (pendulumChannel\<lparr>generatedTree := Some pendulumTree\<rparr>) 0)
     = Inr (4, [Some 0, Some 1, Some 2, Some 1])"
    by (simp add: buildPlaybackSequence_def pendulumChannel_def exampleChannel_def path
        orderNodes_def)
      (simp add: pendulumPattern_def examplePattern_def ns)
  have c: "(branchesCount pendulumPattern + 1) * seqLength (trunk pendulumPattern) = 3"
    by (simp add: pendulumPattern_def examplePattern_def exampleTrunk_def)
  from g b c show ?thesis
    by simp
qed

end
